theory Spec2Isabelle
  imports Complex_Main "HOL-Library.Word"
begin

unbundle bit_operations_syntax

section \<open>Board encoding (ai\_bridge.cpp, lines 17--21)\<close>

text \<open>
  A board is a 64-bit value of sixteen nibbles, a row a 16-bit value of four nibbles.
  The C code computes on \<open>uint64_t\<close> and \<open>uint16_t\<close>; both are modelled as words of the
  same width, so that shifts and additions truncate as they do in C.
\<close>

type_synonym board_t = "64 word"
type_synonym row_t = "16 word"

definition ROW_MASK :: board_t where
  "ROW_MASK = 0xFFFF"

definition COL_MASK :: board_t where
  "COL_MASK = 0x000F000F000F000F"

section \<open>Core bit operations (lines 67--111)\<close>

definition unpack_col :: "row_t \<Rightarrow> board_t" where
  "unpack_col row =
     (let tmp = (ucast row :: board_t)
      in (tmp OR push_bit 12 tmp OR push_bit 24 tmp OR push_bit 36 tmp) AND COL_MASK)"

text \<open>
  \<open>reverse_row\<close> computes on the promoted \<open>int\<close> and truncates to 16 bits on return;
  on a 16-bit word \<open>push_bit\<close> truncates at once, which gives the same low 16 bits.
\<close>

definition reverse_row :: "row_t \<Rightarrow> row_t" where
  "reverse_row row =
     drop_bit 12 row OR (drop_bit 4 row AND 0x00F0) OR (push_bit 4 row AND 0x0F00) OR push_bit 12 row"

definition transpose_board :: "board_t \<Rightarrow> board_t" where
  "transpose_board x =
     (let a1 = x AND 0xF0F00F0FF0F00F0F;
          a2 = x AND 0x0000F0F00000F0F0;
          a3 = x AND 0x0F0F00000F0F0000;
          a = a1 OR push_bit 12 a2 OR drop_bit 12 a3;
          b1 = a AND 0xFF00FF0000FF00FF;
          b2 = a AND 0x00FF00FF00000000;
          b3 = a AND 0x00000000FF00FF00
      in b1 OR drop_bit 24 b2 OR push_bit 24 b3)"

definition count_empty :: "board_t \<Rightarrow> int" where
  "count_empty x0 =
     (let x1 = x0 OR (drop_bit 2 x0 AND 0x3333333333333333);
          x2 = x1 OR drop_bit 1 x1;
          x3 = NOT x2 AND 0x1111111111111111;
          x4 = x3 + drop_bit 32 x3;
          x5 = x4 + drop_bit 16 x4;
          x6 = x5 + drop_bit 8 x5;
          x7 = x6 + drop_bit 4 x6
      in uint (x7 AND 0xf))"

text \<open>The two loops of \<open>count_distinct_tiles\<close>: collect the ranks in a bit set, then count its bits.\<close>

function bitset_loop :: "board_t \<Rightarrow> 16 word \<Rightarrow> 16 word" where
  "bitset_loop board bitset =
     (if board \<noteq> 0
      then bitset_loop (drop_bit 4 board) (bitset OR push_bit (unat (board AND 0xf)) 1)
      else bitset)"
  by pat_completeness auto
termination
proof (relation "measure (\<lambda>(board, bitset). unat board)")
  show "wf (measure (\<lambda>(board :: board_t, bitset :: 16 word). unat board))"
    by simp
next
  fix board :: board_t and bitset :: "16 word"
  assume "board \<noteq> 0"
  then have "0 < unat board"
    by (simp add: unat_gt_0)
  then have "unat board div 16 < unat board"
    by simp
  then show "((drop_bit 4 board, bitset OR push_bit (unat (board AND 0xf)) 1), (board, bitset))
      \<in> measure (\<lambda>(board, bitset). unat board)"
    by (simp add: drop_bit_eq_div unat_div)
qed

function popcount_loop :: "16 word \<Rightarrow> int \<Rightarrow> int" where
  "popcount_loop bitset count =
     (if bitset \<noteq> 0 then popcount_loop (bitset AND (bitset - 1)) (count + 1) else count)"
  by pat_completeness auto
termination
proof (relation "measure (\<lambda>(bitset, count). unat bitset)")
  show "wf (measure (\<lambda>(bitset :: 16 word, count :: int). unat bitset))"
    by simp
next
  fix bitset :: "16 word" and count :: int
  assume nz: "bitset \<noteq> 0"
  have "bitset AND (bitset - 1) \<le> bitset - 1"
    by (rule word_and_le1)
  moreover have "bitset - 1 < bitset"
    using nz by (simp add: word_less_nat_alt unat_minus_one unat_gt_0)
  ultimately have "bitset AND (bitset - 1) < bitset"
    by simp
  then show "((bitset AND (bitset - 1), count + 1), (bitset, count))
      \<in> measure (\<lambda>(bitset, count). unat bitset)"
    by (simp add: word_less_nat_alt)
qed

definition count_distinct_tiles :: "board_t \<Rightarrow> int" where
  "count_distinct_tiles board = popcount_loop (drop_bit 1 (bitset_loop board 0)) 0"

section \<open>Table initialisation (lines 126--218)\<close>

text \<open>
  The local array \<open>unsigned line[4]\<close> is a function from the index to the cell; only the
  indices 0 to 3 are ever read or written. The cells hold ranks 0 to 15, so no arithmetic
  on them overflows and they are natural numbers.
\<close>

type_synonym line_t = "nat \<Rightarrow> nat"

definition mk_line :: "nat \<Rightarrow> nat \<Rightarrow> nat \<Rightarrow> nat \<Rightarrow> line_t" where
  "mk_line a b c d = (\<lambda>_. 0)(0 := a, 1 := b, 2 := c, 3 := d)"

definition line_of_row :: "row_t \<Rightarrow> line_t" where
  "line_of_row row =
     mk_line (unat (drop_bit 0 row AND 0xf)) (unat (drop_bit 4 row AND 0xf))
             (unat (drop_bit 8 row AND 0xf)) (unat (drop_bit 12 row AND 0xf))"

text \<open>
  The integer part of the heuristic loop (lines 147--168): the counters \<open>empty\<close>,
  \<open>merges\<close>, \<open>prev\<close> and \<open>counter\<close>. The floating-point accumulators of the same loop
  (\<open>sum\<close>, the monotonicity terms) do not influence them and are left out.
\<close>

record heur_state =
  empty_h :: int
  merges :: int
  prev :: int
  counter :: int

definition heur_step :: "heur_state \<Rightarrow> nat \<Rightarrow> heur_state" where
  "heur_step s rank =
     (if rank = 0 then s\<lparr>empty_h := empty_h s + 1\<rparr>
      else (let s' = (if prev s = int rank then s\<lparr>counter := counter s + 1\<rparr>
                      else if counter s > 0
                           then s\<lparr>merges := merges s + (1 + counter s), counter := 0\<rparr>
                           else s)
            in s'\<lparr>prev := int rank\<rparr>))"

text \<open>The cells of a line in the order in which \<open>for (i = 0; i < 4; ++i)\<close> visits them.\<close>

definition tiles_of_line :: "line_t \<Rightarrow> nat list" where
  "tiles_of_line line = [line 0, line 1, line 2, line 3]"

definition heur_loop :: "nat list \<Rightarrow> heur_state" where
  "heur_loop ranks = foldl heur_step \<lparr>empty_h = 0, merges = 0, prev = 0, counter = 0\<rparr> ranks"

definition heur_merges :: "line_t \<Rightarrow> int" where
  "heur_merges line =
     (let s = heur_loop (tiles_of_line line)
      in if counter s > 0 then merges s + (1 + counter s) else merges s)"

text \<open>The inner loop \<open>for (j = i + 1; j < 4; ++j) if (line[j] != 0) break;\<close>, started at \<open>j\<close>.\<close>

function find_next :: "line_t \<Rightarrow> nat \<Rightarrow> nat" where
  "find_next line j = (if j < 4 then (if line j \<noteq> 0 then j else find_next line (j + 1)) else j)"
  by pat_completeness auto
termination
  by (relation "measure (\<lambda>(line, j). 4 - j)") auto

text \<open>
  The move to the left (lines 189--206). The branch that fills an empty cell decrements
  \<open>i\<close> and the loop header increments it again, so the next iteration runs at the same
  \<open>i\<close>; the model passes \<open>i\<close> on unchanged there.
\<close>

function move_left_loop :: "nat \<Rightarrow> line_t \<Rightarrow> line_t" where
  "move_left_loop i line =
     (if i < 3 then
        (let j = find_next line (i + 1) in
         if j = 4 then line
         else if line i = 0 then move_left_loop i (line(i := line j, j := 0))
         else if line i = line j
              then move_left_loop (i + 1)
                     ((if line i \<noteq> 0xf then line(i := line i + 1) else line)(j := 0))
              else move_left_loop (i + 1) line)
      else line)"
  by pat_completeness auto
termination
proof (relation "measures [\<lambda>(i, line). 3 - i,
                           \<lambda>(i, line). length (filter (\<lambda>k. i < k \<and> line k \<noteq> 0) [1, 2, 3])]")
  fix i :: nat and line :: line_t and j :: nat
  assume i: "i < 3" and j: "j = find_next line (i + 1)" and j4: "j \<noteq> 4" and z: "line i = 0"
  have range: "s \<le> 4 \<Longrightarrow> s \<le> find_next l s \<and> find_next l s \<le> 4
      \<and> (find_next l s < 4 \<longrightarrow> l (find_next l s) \<noteq> 0)" for l s
  proof (induction l s rule: find_next.induct)
    case (1 l s)
    show ?case
    proof (cases "s < 4 \<and> l s = 0")
      case True
      with "1.IH" have "Suc s \<le> find_next l (Suc s) \<and> find_next l (Suc s) \<le> 4
          \<and> (find_next l (Suc s) < 4 \<longrightarrow> l (find_next l (Suc s)) \<noteq> 0)"
        by simp
      moreover from True have "find_next l s = find_next l (Suc s)"
        by (subst find_next.simps) simp
      ultimately show ?thesis by simp
    next
      case False
      with "1.prems" show ?thesis
        by (subst (1 2 3 4) find_next.simps) auto
    qed
  qed
  from range [of "i + 1" line] i j j4 have "i < j" and "j < 4" and "line j \<noteq> 0"
    by auto
  then have "j = 1 \<or> j = 2 \<or> j = 3"
    by arith
  with \<open>i < j\<close> \<open>line j \<noteq> 0\<close> z
  show "((i, line(i := line j, j := 0)), (i, line))
      \<in> measures [\<lambda>(i, line). 3 - i,
                    \<lambda>(i, line). length (filter (\<lambda>k. i < k \<and> line k \<noteq> 0) [1, 2, 3])]"
    by auto
qed auto

text \<open>Line 208: the four cells are packed into a row, truncated to 16 bits.\<close>

definition row_of_line :: "line_t \<Rightarrow> row_t" where
  "row_of_line line =
     push_bit 0 (of_nat (line 0)) OR push_bit 4 (of_nat (line 1)) OR
     push_bit 8 (of_nat (line 2)) OR push_bit 12 (of_nat (line 3))"

definition move_left_row :: "row_t \<Rightarrow> row_t" where
  "move_left_row row = row_of_line (move_left_loop 0 (line_of_row row))"

text \<open>
  The four move tables are arrays of 65536 entries in static storage, indexed by a row:
  functions from the 16-bit index. \<open>heur_score_table\<close> and \<open>score_table\<close> hold
  floating-point values and are not part of the model.
\<close>

record tables =
  row_left_table :: "row_t \<Rightarrow> row_t"
  row_right_table :: "row_t \<Rightarrow> row_t"
  col_up_table :: "row_t \<Rightarrow> board_t"
  col_down_table :: "row_t \<Rightarrow> board_t"

definition zero_tables :: tables where
  "zero_tables = \<lparr>row_left_table = (\<lambda>_. 0), row_right_table = (\<lambda>_. 0),
                  col_up_table = (\<lambda>_. 0), col_down_table = (\<lambda>_. 0)\<rparr>"

text \<open>One iteration of the loop of \<open>do_init_tables\<close> (lines 188--216), for the loop counter \<open>n\<close>.\<close>

definition init_row :: "nat \<Rightarrow> tables \<Rightarrow> tables" where
  "init_row n T =
     (let row = (of_nat n :: row_t);
          result = move_left_row row;
          rev_result = reverse_row result;
          rev_row = reverse_row row
      in T\<lparr>row_left_table := (row_left_table T)(row := row XOR result),
            row_right_table := (row_right_table T)(rev_row := rev_row XOR rev_result),
            col_up_table := (col_up_table T)(row := unpack_col row XOR unpack_col result),
            col_down_table :=
              (col_down_table T)(rev_row := unpack_col rev_row XOR unpack_col rev_result)\<rparr>)"

definition do_init_tables :: "tables \<Rightarrow> tables" where
  "do_init_tables T = fold init_row [0..<65536] T"

text \<open>The tables after \<open>ai_init\<close>, called on the zero-initialised static storage.\<close>

definition ai_init :: tables where
  "ai_init = do_init_tables zero_tables"

section \<open>Move execution (lines 224--270)\<close>

definition execute_move_0 :: "tables \<Rightarrow> board_t \<Rightarrow> board_t" where
  "execute_move_0 T board =
     (let t = transpose_board board;
          ret = board XOR push_bit 0 (col_up_table T (ucast (drop_bit 0 t AND ROW_MASK)));
          ret = ret XOR push_bit 4 (col_up_table T (ucast (drop_bit 16 t AND ROW_MASK)));
          ret = ret XOR push_bit 8 (col_up_table T (ucast (drop_bit 32 t AND ROW_MASK)));
          ret = ret XOR push_bit 12 (col_up_table T (ucast (drop_bit 48 t AND ROW_MASK)))
      in ret)"

definition execute_move_1 :: "tables \<Rightarrow> board_t \<Rightarrow> board_t" where
  "execute_move_1 T board =
     (let t = transpose_board board;
          ret = board XOR push_bit 0 (col_down_table T (ucast (drop_bit 0 t AND ROW_MASK)));
          ret = ret XOR push_bit 4 (col_down_table T (ucast (drop_bit 16 t AND ROW_MASK)));
          ret = ret XOR push_bit 8 (col_down_table T (ucast (drop_bit 32 t AND ROW_MASK)));
          ret = ret XOR push_bit 12 (col_down_table T (ucast (drop_bit 48 t AND ROW_MASK)))
      in ret)"

definition execute_move_2 :: "tables \<Rightarrow> board_t \<Rightarrow> board_t" where
  "execute_move_2 T board =
     (let ret = board XOR
            push_bit 0 (ucast (row_left_table T (ucast (drop_bit 0 board AND ROW_MASK))));
          ret = ret XOR
            push_bit 16 (ucast (row_left_table T (ucast (drop_bit 16 board AND ROW_MASK))));
          ret = ret XOR
            push_bit 32 (ucast (row_left_table T (ucast (drop_bit 32 board AND ROW_MASK))));
          ret = ret XOR
            push_bit 48 (ucast (row_left_table T (ucast (drop_bit 48 board AND ROW_MASK))))
      in ret)"

definition execute_move_3 :: "tables \<Rightarrow> board_t \<Rightarrow> board_t" where
  "execute_move_3 T board =
     (let ret = board XOR
            push_bit 0 (ucast (row_right_table T (ucast (drop_bit 0 board AND ROW_MASK))));
          ret = ret XOR
            push_bit 16 (ucast (row_right_table T (ucast (drop_bit 16 board AND ROW_MASK))));
          ret = ret XOR
            push_bit 32 (ucast (row_right_table T (ucast (drop_bit 32 board AND ROW_MASK))));
          ret = ret XOR
            push_bit 48 (ucast (row_right_table T (ucast (drop_bit 48 board AND ROW_MASK))))
      in ret)"

text \<open>The move code is a C \<open>int\<close>; every value outside 0 to 3 takes the \<open>default\<close> branch.\<close>

definition do_execute_move :: "tables \<Rightarrow> int \<Rightarrow> board_t \<Rightarrow> board_t" where
  "do_execute_move T move board =
     (if move = 0 then execute_move_0 T board
      else if move = 1 then execute_move_1 T board
      else if move = 2 then execute_move_2 T board
      else if move = 3 then execute_move_3 T board
      else NOT 0)"

definition ai_execute_move :: "tables \<Rightarrow> int \<Rightarrow> board_t \<Rightarrow> board_t" where
  "ai_execute_move T move board = do_execute_move T move board"

definition ai_count_empty :: "board_t \<Rightarrow> int" where
  "ai_count_empty board = count_empty board"

section \<open>Top-level driver (lines 43--61 and 353--386)\<close>

text \<open>
  Scores are C \<open>float\<close>s. They are represented by real numbers; rounding is not
  modelled. The driver only compares scores and adds the constant \<open>1e-6\<close>, and the
  statements proved about it below rest on the comparison \<open>0 > 0\<close> being false, which
  holds for floating-point comparison as it does for the reals.
\<close>

record trans_table_entry_t =
  depth :: "8 word"
  heuristic :: real

record eval_state =
  trans_table :: "board_t \<rightharpoonup> trans_table_entry_t"
  maxdepth :: int
  curdepth :: int
  cachehits :: int
  moves_evaled :: nat
  depth_limit :: int

definition new_eval_state :: eval_state where
  "new_eval_state = \<lparr>trans_table = Map.empty, maxdepth = 0, curdepth = 0, cachehits = 0,
                      moves_evaled = 0, depth_limit = 0\<rparr>"

text \<open>
  The chance-node evaluator \<open>score_tilechoose_node\<close> computes on floating-point tables.
  The driver is modelled for an arbitrary evaluator of its type: a function from the
  search state, the board and the cumulative probability to a score and the new state.
\<close>

type_synonym chance_node = "eval_state \<Rightarrow> board_t \<Rightarrow> real \<Rightarrow> real \<times> eval_state"

definition internal_score_toplevel_move ::
    "chance_node \<Rightarrow> tables \<Rightarrow> eval_state \<Rightarrow> board_t \<Rightarrow> int \<Rightarrow> real \<times> eval_state" where
  "internal_score_toplevel_move score_tilechoose_node T state board move =
     (let newboard = do_execute_move T move board
      in if board = newboard then (0, state)
         else (let (v, state') = score_tilechoose_node state newboard 1
               in (v + 1 / 1000000, state')))"

text \<open>Lines 371--372: the fresh search state of a top-level call, with its depth limit.\<close>

definition toplevel_state :: "board_t \<Rightarrow> eval_state" where
  "toplevel_state board = new_eval_state\<lparr>depth_limit := max 3 (count_distinct_tiles board - 2)\<rparr>"

text \<open>One iteration of the loop over the four moves (lines 377--383).\<close>

definition toplevel_step ::
    "chance_node \<Rightarrow> tables \<Rightarrow> board_t \<Rightarrow> real \<times> int \<times> eval_state \<Rightarrow> int \<Rightarrow> real \<times> int \<times> eval_state" where
  "toplevel_step score_tilechoose_node T board acc move =
     (case acc of (best, bestmove, state) \<Rightarrow>
        (let (res, state') = internal_score_toplevel_move score_tilechoose_node T state board move
         in if res > best then (res, move, state') else (best, bestmove, state')))"

definition ai_find_best_move :: "chance_node \<Rightarrow> tables \<Rightarrow> board_t \<Rightarrow> int" where
  "ai_find_best_move score_tilechoose_node T board =
     (case foldl (toplevel_step score_tilechoose_node T board)
             (0, - 1, toplevel_state board) [0, 1, 2, 3]
      of (best, bestmove, state) \<Rightarrow> bestmove)"

section \<open>Notions used to state the properties\<close>

text \<open>The rank in cell \<open>i\<close> of a board (cell \<open>i\<close> is nibble \<open>i\<close>), and the sixteen cells in order.\<close>

definition nibble :: "board_t \<Rightarrow> nat \<Rightarrow> nat" where
  "nibble b i = unat (drop_bit (4 * i) b AND 0xf)"

definition nibbles :: "board_t \<Rightarrow> nat list" where
  "nibbles b = map (nibble b) [0..<16]"

definition empty_cells :: "board_t \<Rightarrow> nat" where
  "empty_cells b = length (filter (\<lambda>r. r = 0) (nibbles b))"

definition distinct_ranks :: "board_t \<Rightarrow> nat" where
  "distinct_ranks b = length (remdups (filter (\<lambda>r. r \<noteq> 0) (nibbles b)))"

text \<open>The board with each of its four rows reversed.\<close>

definition mirror :: "board_t \<Rightarrow> board_t" where
  "mirror b =
     push_bit 0 (ucast (reverse_row (ucast (drop_bit 0 b AND ROW_MASK)))) OR
     push_bit 16 (ucast (reverse_row (ucast (drop_bit 16 b AND ROW_MASK)))) OR
     push_bit 32 (ucast (reverse_row (ucast (drop_bit 32 b AND ROW_MASK)))) OR
     push_bit 48 (ucast (reverse_row (ucast (drop_bit 48 b AND ROW_MASK))))"

text \<open>Row \<open>k\<close> of a board, the board of four rows, and the board of four columns.\<close>

definition row_at :: "nat \<Rightarrow> board_t \<Rightarrow> row_t" where
  "row_at k b = ucast (drop_bit (16 * k) b AND ROW_MASK)"

definition join_rows :: "row_t \<Rightarrow> row_t \<Rightarrow> row_t \<Rightarrow> row_t \<Rightarrow> board_t" where
  "join_rows r0 r1 r2 r3 =
     push_bit 0 (ucast r0) OR push_bit 16 (ucast r1) OR
     push_bit 32 (ucast r2) OR push_bit 48 (ucast r3)"

definition join_cols :: "row_t \<Rightarrow> row_t \<Rightarrow> row_t \<Rightarrow> row_t \<Rightarrow> board_t" where
  "join_cols c0 c1 c2 c3 =
     push_bit 0 (unpack_col c0) OR push_bit 4 (unpack_col c1) OR
     push_bit 8 (unpack_col c2) OR push_bit 12 (unpack_col c3)"

text \<open>The bit of a board that \<open>transpose\<close> moves to position \<open>n\<close>.\<close>

definition tp :: "nat \<Rightarrow> nat" where
  "tp n = 4 * (4 * (n div 4 mod 4) + n div 16) + n mod 4"

text \<open>A line from the list of its four cells, and the conversions between rows and lists.\<close>

definition line_of_tiles :: "nat list \<Rightarrow> line_t" where
  "line_of_tiles ts = mk_line (ts ! 0) (ts ! 1) (ts ! 2) (ts ! 3)"

definition tiles_of_row :: "row_t \<Rightarrow> nat list" where
  "tiles_of_row r = tiles_of_line (line_of_row r)"

definition row_of_tiles :: "nat list \<Rightarrow> row_t" where
  "row_of_tiles ts = row_of_line (line_of_tiles ts)"

text \<open>The number of empty cells in a list of cells.\<close>

definition zeros :: "nat list \<Rightarrow> nat" where
  "zeros ts = length (filter (\<lambda>t. t = 0) ts)"

text \<open>The indicator function of the empty cell, for counting by sums.\<close>

definition is_zero :: "nat \<Rightarrow> nat" where
  "is_zero t = (if t = 0 then 1 else 0)"

text \<open>
  One slide to the left on the list of the cells, with the saturating merge that the loop
  of lines 189--206 performs: drop the empty cells, merge equal neighbours pairwise from
  the left, each tile taking part in at most one merge, and fill up with empty cells. Two
  tiles of rank 15 leave one tile of rank 15: the rank is not raised, and the second tile
  is consumed like that of any other pair.
\<close>

fun merge_pairs :: "nat list \<Rightarrow> nat list" where
  "merge_pairs (x # y # ts) =
     (if x = y then min 15 (x + 1) # merge_pairs ts else x # merge_pairs (y # ts))"
| "merge_pairs ts = ts"

definition slide_left_ref :: "nat list \<Rightarrow> nat list" where
  "slide_left_ref ts =
     (let ms = merge_pairs (filter (\<lambda>t. t \<noteq> 0) ts)
      in ms @ replicate (length ts - length ms) 0)"

text \<open>The move of a row to the right, as the table construction derives it from the left move.\<close>

definition move_right_row :: "row_t \<Rightarrow> row_t" where
  "move_right_row r = reverse_row (move_left_row (reverse_row r))"

text \<open>
  The maximal runs of equal neighbours of a list, and two readings of the merge score
  over the non-empty tiles of a line: each run of at least two tiles counts with its
  length, or with its length plus one.
\<close>

fun runs :: "nat list \<Rightarrow> nat list list" where
  "runs [] = []"
| "runs (x # xs) =
     (case runs xs of
        [] \<Rightarrow> [[x]]
      | r # rs \<Rightarrow> if hd r = x then (x # r) # rs else [x] # r # rs)"

definition run_score :: "nat list \<Rightarrow> int" where
  "run_score xs = sum_list (map (\<lambda>r. int (length r)) (filter (\<lambda>r. 2 \<le> length r) (runs xs)))"

definition merge_runs :: "nat list \<Rightarrow> nat list list" where
  "merge_runs ts = filter (\<lambda>r. 2 \<le> length r) (runs (filter (\<lambda>t. t \<noteq> 0) ts))"

definition merge_score_len :: "nat list \<Rightarrow> int" where
  "merge_score_len ts = sum_list (map (\<lambda>r. int (length r)) (merge_runs ts))"

definition merge_score_len_plus_1 :: "nat list \<Rightarrow> int" where
  "merge_score_len_plus_1 ts = sum_list (map (\<lambda>r. int (length r) + 1) (merge_runs ts))"

text \<open>The merge score that a state of the heuristic loop yields after the final flush (lines 166--168).\<close>

definition heur_result :: "heur_state \<Rightarrow> int" where
  "heur_result s = (if counter s > 0 then merges s + (1 + counter s) else merges s)"

text \<open>
  The two halves of \<open>count_empty\<close>: the flags that mark the empty nibbles, and the sum
  of the sixteen flags in the lowest nibble.
\<close>

definition zero_flags :: "board_t \<Rightarrow> board_t" where
  "zero_flags x0 =
     (let x1 = x0 OR (drop_bit 2 x0 AND 0x3333333333333333);
          x2 = x1 OR drop_bit 1 x1
      in NOT x2 AND 0x1111111111111111)"

definition sum_flags :: "board_t \<Rightarrow> board_t" where
  "sum_flags x3 =
     (let x4 = x3 + drop_bit 32 x3;
          x5 = x4 + drop_bit 16 x4;
          x6 = x5 + drop_bit 8 x5;
          x7 = x6 + drop_bit 4 x6
      in x7 AND 0xf)"

text \<open>
  Base-16 numbers as lists of digits, lowest first, and the list that adds the upper half
  of a list to its lower half, digit by digit.
\<close>

fun val16 :: "nat list \<Rightarrow> nat" where
  "val16 [] = 0"
| "val16 (d # ds) = d + 16 * val16 ds"

fun digits16 :: "nat \<Rightarrow> nat \<Rightarrow> nat list" where
  "digits16 0 v = []"
| "digits16 (Suc k) v = v mod 16 # digits16 k (v div 16)"

definition halve :: "nat list \<Rightarrow> nat list" where
  "halve ds = map2 (+) (take (length ds div 2) ds) (drop (length ds div 2) ds)"

text \<open>
  The grid as the specification reads it off a board: sixteen base-16 digits, lowest
  first, cell \<open>i\<close> lying in row \<open>i div 4\<close> and column \<open>i mod 4\<close>; the four cells of a
  row likewise; and the board that has a given list of cells.
\<close>

definition cells :: "board_t \<Rightarrow> nat list" where
  "cells b = digits16 16 (unat b)"

definition row_cells :: "row_t \<Rightarrow> nat list" where
  "row_cells r = digits16 4 (unat r)"

definition board_of_cells :: "nat list \<Rightarrow> board_t" where
  "board_of_cells cs = of_nat (val16 cs)"

text \<open>
  The brute-force slide to the left in the words of the specification: compact the row,
  merge two equal neighbours into one tile of the next rank, the merge being suppressed
  at rank 15, where both tiles stay; no tile merges twice in one pass.
\<close>

fun merge_pairs_spec :: "nat list \<Rightarrow> nat list" where
  "merge_pairs_spec (x # y # ts) =
     (if x = y \<and> x \<noteq> 15 then (x + 1) # merge_pairs_spec ts else x # merge_pairs_spec (y # ts))"
| "merge_pairs_spec ts = ts"

definition slide_left_spec :: "nat list \<Rightarrow> nat list" where
  "slide_left_spec ts =
     (let ms = merge_pairs_spec (filter (\<lambda>t. t \<noteq> 0) ts)
      in ms @ replicate (length ts - length ms) 0)"

text \<open>
  The symmetries of the grid on the list of the sixteen cells: the four rows, the grid
  with every row reversed, and the grid with rows and columns exchanged; and the same two
  symmetries on boards.
\<close>

definition rows_of_cells :: "nat list \<Rightarrow> nat list list" where
  "rows_of_cells cs = [take 4 cs, take 4 (drop 4 cs), take 4 (drop 8 cs), take 4 (drop 12 cs)]"

definition mirror_cells :: "nat list \<Rightarrow> nat list" where
  "mirror_cells cs = concat (map rev (rows_of_cells cs))"

definition transpose_cells :: "nat list \<Rightarrow> nat list" where
  "transpose_cells cs = map (\<lambda>i. cs ! (4 * (i mod 4) + i div 4)) [0..<16]"

definition mirror_board :: "board_t \<Rightarrow> board_t" where
  "mirror_board b = board_of_cells (mirror_cells (cells b))"

definition transpose_grid :: "board_t \<Rightarrow> board_t" where
  "transpose_grid b = board_of_cells (transpose_cells (cells b))"

text \<open>The number of one-bits of a natural number.\<close>

fun popcount :: "nat \<Rightarrow> nat" where
  "popcount n = (if n = 0 then 0 else n mod 2 + popcount (n div 2))"

text \<open>
  What the four moves have in common: a move never lowers the number of empty cells,
  repeats without effect when it left that number as it was, and leaves a board that is
  neither full nor empty when it changes the board.
\<close>

definition good_move :: "(board_t \<Rightarrow> board_t) \<Rightarrow> bool" where
  "good_move f \<longleftrightarrow>
     (\<forall>b. empty_cells b \<le> empty_cells (f b) \<and>
          (empty_cells (f b) = empty_cells b \<longrightarrow> f (f b) = f b) \<and>
          (f b \<noteq> b \<longrightarrow> 0 < empty_cells (f b) \<and> empty_cells (f b) < 16))"

section \<open>Enumerating bit positions\<close>

lemma all_less_double:
  "(\<forall>n<2 * k. P n) \<longleftrightarrow> (\<forall>m<k. P (2 * m) \<and> P (2 * m + 1))" for k :: nat
proof
  assume "\<forall>n<2 * k. P n"
  then show "\<forall>m<k. P (2 * m) \<and> P (2 * m + 1)"
    by simp
next
  assume both: "\<forall>m<k. P (2 * m) \<and> P (2 * m + 1)"
  show "\<forall>n<2 * k. P n"
  proof (intro allI impI)
    fix n
    assume "n < 2 * k"
    then have "n div 2 < k"
      by arith
    with both have half: "P (2 * (n div 2)) \<and> P (2 * (n div 2) + 1)"
      by blast
    show "P n"
    proof (cases "even n")
      case True
      then have "2 * (n div 2) = n" by simp
      with half show ?thesis by simp
    next
      case False
      then have "2 * (n div 2) + 1 = n" by simp
      with half show ?thesis by simp
    qed
  qed
qed

lemma all_less_Bit0:
  "(\<forall>n<numeral (Num.Bit0 k). P (n::nat)) \<longleftrightarrow> (\<forall>m<numeral k. P (2 * m) \<and> P (2 * m + 1))"
  using all_less_double [of "numeral k" P] by (simp add: numeral_Bit0 mult_2)

lemma all_less_One: "(\<forall>n<numeral Num.One. P n) \<longleftrightarrow> P (0::nat)"
  by simp

lemmas all_less_num = all_less_Bit0 all_less_One numeral_2_eq_2 [symmetric]

lemma bit16_out: "16 \<le> n \<Longrightarrow> bit (r :: 16 word) n = False"
  by (auto dest: bit_imp_le_length)

section \<open>The tables after initialisation\<close>

lemma bit_reverse_row: "\<forall>n<16. bit (reverse_row r) n = bit r (12 - 4 * (n div 4) + n mod 4)"
  unfolding all_less_num by (simp add: reverse_row_def bit_simps bit16_out all_less_num)

lemma reverse_row_involution: "reverse_row (reverse_row r) = r"
proof (rule bit_word_eqI)
  fix n
  assume "n < LENGTH(16)"
  then have n: "n < 16"
    by simp
  have "\<forall>n<16. bit (reverse_row (reverse_row r)) n = bit r n"
    unfolding all_less_num by (simp add: bit_reverse_row all_less_num)
  with n show "bit (reverse_row (reverse_row r)) n = bit r n"
    by simp
qed

lemma reverse_row_eq_iff: "reverse_row a = b \<longleftrightarrow> a = reverse_row b"
  using reverse_row_involution by metis

lemma init_row_apply:
  "row_left_table (init_row n T) r =
     (if r = of_nat n then r XOR move_left_row r else row_left_table T r)"
  "col_up_table (init_row n T) r =
     (if r = of_nat n then unpack_col r XOR unpack_col (move_left_row r) else col_up_table T r)"
  "row_right_table (init_row n T) r =
     (if reverse_row r = of_nat n then r XOR move_right_row r else row_right_table T r)"
  "col_down_table (init_row n T) r =
     (if reverse_row r = of_nat n then unpack_col r XOR unpack_col (move_right_row r)
      else col_down_table T r)"
  by (auto simp: init_row_def Let_def move_right_row_def reverse_row_eq_iff reverse_row_involution)

lemma fold_init_row:
  "(r \<in> of_nat ` set ns \<longrightarrow>
       row_left_table (fold init_row ns T) r = r XOR move_left_row r \<and>
       col_up_table (fold init_row ns T) r = unpack_col r XOR unpack_col (move_left_row r)) \<and>
   (reverse_row r \<in> of_nat ` set ns \<longrightarrow>
       row_right_table (fold init_row ns T) r = r XOR move_right_row r \<and>
       col_down_table (fold init_row ns T) r = unpack_col r XOR unpack_col (move_right_row r))"
proof (induction ns rule: rev_induct)
  case Nil
  show ?case by simp
next
  case (snoc n ns)
  then show ?case
    by (simp add: init_row_apply)
qed

lemma all_rows: "(r :: row_t) \<in> of_nat ` set [0..<65536]"
proof -
  have "unat r < 65536"
    using unsigned_less [of r, where 'a = nat] by simp
  moreover have "of_nat (unat r) = r"
    by simp
  ultimately show ?thesis
    by (metis atLeastLessThan_iff imageI set_upt zero_le)
qed

lemma ai_init_tables:
  "row_left_table ai_init r = r XOR move_left_row r"
  "row_right_table ai_init r = r XOR move_right_row r"
  "col_up_table ai_init r = unpack_col r XOR unpack_col (move_left_row r)"
  "col_down_table ai_init r = unpack_col r XOR unpack_col (move_right_row r)"
  using fold_init_row [of r "[0..<65536]" zero_tables] all_rows [of r] all_rows [of "reverse_row r"]
  by (simp_all add: ai_init_def do_init_tables_def del: upt_rec_numeral set_upt)

lemmas eval_row = move_left_row_def move_right_row_def line_of_row_def mk_line_def
  row_of_line_def reverse_row_def unpack_col_def COL_MASK_def

lemmas eval_move = do_execute_move_def execute_move_0_def execute_move_1_def
  execute_move_2_def execute_move_3_def ai_init_tables ROW_MASK_def Let_def

section \<open>Rows as lists of cells\<close>

lemma move_left_loop_ref:
  assumes "a \<le> 15" "b \<le> 15" "c \<le> 15" "d \<le> 15"
  shows "tiles_of_line (move_left_loop 0 (mk_line a b c d)) = slide_left_ref [a, b, c, d]"
  using assms
  apply (cases "a = 0"; cases "b = 0"; cases "c = 0"; cases "d = 0")
  apply (simp_all add: mk_line_def tiles_of_line_def slide_left_ref_def Let_def)
  done

lemma nib_le: "unat ((w :: row_t) AND 0xf) \<le> 15"
proof -
  have "w AND 0xf \<le> 0xf" by (rule word_and_le1)
  then show ?thesis by (simp add: word_le_nat_alt)
qed

lemma tiles_of_row_eq:
  "tiles_of_row r = [unat (r AND 0xf), unat (drop_bit 4 r AND 0xf),
                     unat (drop_bit 8 r AND 0xf), unat (drop_bit 12 r AND 0xf)]"
  by (simp add: tiles_of_row_def tiles_of_line_def line_of_row_def mk_line_def)

lemma tiles_of_row_le: "t \<in> set (tiles_of_row r) \<Longrightarrow> t \<le> 15"
  using nib_le by (auto simp: tiles_of_row_eq)

lemma length_tiles_of_row: "length (tiles_of_row r) = 4"
  by (simp add: tiles_of_row_eq)

lemma row_of_line_tiles: "row_of_line line = row_of_tiles (tiles_of_line line)"
  by (simp add: row_of_tiles_def line_of_tiles_def tiles_of_line_def row_of_line_def mk_line_def)

lemma move_left_row_ref: "move_left_row r = row_of_tiles (slide_left_ref (tiles_of_row r))"
proof -
  have "tiles_of_line (move_left_loop 0 (line_of_row r)) = slide_left_ref (tiles_of_row r)"
    unfolding line_of_row_def tiles_of_row_def
    by (subst move_left_loop_ref) (simp_all add: nib_le tiles_of_line_def mk_line_def)
  then show ?thesis
    by (simp add: move_left_row_def row_of_line_tiles)
qed

lemma row_of_tiles_of_row: "row_of_tiles (tiles_of_row r) = r"
proof (rule bit_word_eqI)
  fix n assume "n < LENGTH(16)"
  then have n: "n < 16" by simp
  have "\<forall>n<16. bit (row_of_tiles (tiles_of_row r)) n = bit r n"
    unfolding all_less_num
    by (simp add: row_of_tiles_def tiles_of_row_eq line_of_tiles_def mk_line_def row_of_line_def
        bit_simps all_less_num)
  with n show "bit (row_of_tiles (tiles_of_row r)) n = bit r n" by simp
qed

lemma of_nat_nibble:
  assumes "a \<le> 15"
  shows "(of_nat a :: row_t) AND 0xf = of_nat a" and "unat (of_nat a :: row_t) = a"
proof -
  from assms show u: "unat (of_nat a :: row_t) = a"
    by (simp add: unat_of_nat)
  have "(of_nat a :: row_t) < 2 ^ 4"
    using assms by (simp add: word_less_nat_alt u)
  then have "(of_nat a :: row_t) AND mask 4 = of_nat a"
    by (rule less_mask_eq)
  then show "(of_nat a :: row_t) AND 0xf = of_nat a"
    by (simp add: mask_eq_exp_minus_1)
qed

lemma nibbles_of_packed:
  fixes w0 w1 w2 w3 :: row_t
  defines "p \<equiv> (w0 AND 0xf) OR push_bit 4 (w1 AND 0xf) OR push_bit 8 (w2 AND 0xf) OR push_bit 12 (w3 AND 0xf)"
  shows "p AND 0xf = w0 AND 0xf" "drop_bit 4 p AND 0xf = w1 AND 0xf"
    "drop_bit 8 p AND 0xf = w2 AND 0xf" "drop_bit 12 p AND 0xf = w3 AND 0xf"
proof -
  have "\<forall>n<16. bit (p AND 0xf) n = bit (w0 AND 0xf) n"
    unfolding all_less_num p_def by (simp add: bit_simps all_less_num)
  then show "p AND 0xf = w0 AND 0xf" by (auto intro: bit_word_eqI)
  have "\<forall>n<16. bit (drop_bit 4 p AND 0xf) n = bit (w1 AND 0xf) n"
    unfolding all_less_num p_def by (simp add: bit_simps all_less_num)
  then show "drop_bit 4 p AND 0xf = w1 AND 0xf" by (auto intro: bit_word_eqI)
  have "\<forall>n<16. bit (drop_bit 8 p AND 0xf) n = bit (w2 AND 0xf) n"
    unfolding all_less_num p_def by (simp add: bit_simps all_less_num)
  then show "drop_bit 8 p AND 0xf = w2 AND 0xf" by (auto intro: bit_word_eqI)
  have "\<forall>n<16. bit (drop_bit 12 p AND 0xf) n = bit (w3 AND 0xf) n"
    unfolding all_less_num p_def by (simp add: bit_simps all_less_num)
  then show "drop_bit 12 p AND 0xf = w3 AND 0xf" by (auto intro: bit_word_eqI)
qed

lemma tiles_of_row_of_tiles:
  assumes "a \<le> 15" "b \<le> 15" "c \<le> 15" "d \<le> 15"
  shows "tiles_of_row (row_of_tiles [a, b, c, d]) = [a, b, c, d]"
proof -
  define w0 w1 w2 w3 :: row_t
    where "w0 = of_nat a" and "w1 = of_nat b" and "w2 = of_nat c" and "w3 = of_nat d"
  have m: "w0 AND 0xf = w0" "w1 AND 0xf = w1" "w2 AND 0xf = w2" "w3 AND 0xf = w3"
    and u: "unat w0 = a" "unat w1 = b" "unat w2 = c" "unat w3 = d"
    using assms by (simp_all add: w0_def w1_def w2_def w3_def of_nat_nibble)
  have "row_of_tiles [a, b, c, d] = w0 OR push_bit 4 w1 OR push_bit 8 w2 OR push_bit 12 w3"
    by (simp add: row_of_tiles_def line_of_tiles_def mk_line_def row_of_line_def
        w0_def w1_def w2_def w3_def)
  also have "\<dots> = (w0 AND 0xf) OR push_bit 4 (w1 AND 0xf) OR
      push_bit 8 (w2 AND 0xf) OR push_bit 12 (w3 AND 0xf)"
    by (simp only: m)
  finally have "tiles_of_row (row_of_tiles [a, b, c, d]) =
      [unat (w0 AND 0xf), unat (w1 AND 0xf), unat (w2 AND 0xf), unat (w3 AND 0xf)]"
    by (simp only: tiles_of_row_eq nibbles_of_packed)
  then show ?thesis
    by (simp only: m u)
qed

section \<open>The reference slide on lists\<close>

lemma length_merge_pairs: "length (merge_pairs xs) \<le> length xs"
  by (induction xs rule: merge_pairs.induct) auto

lemma merge_pairs_same_length: "length (merge_pairs xs) = length xs \<Longrightarrow> merge_pairs xs = xs"
proof (induction xs rule: merge_pairs.induct)
  case (1 x y ts)
  show ?case
  proof (cases "x = y")
    case True
    with "1.prems" length_merge_pairs [of ts] show ?thesis by simp
  next
    case False
    with 1 show ?thesis by simp
  qed
qed simp_all

lemma merge_pairs_nonzero: "\<forall>x \<in> set xs. 0 < x \<Longrightarrow> \<forall>x \<in> set (merge_pairs xs). 0 < x"
  by (induction xs rule: merge_pairs.induct) auto

lemma merge_pairs_le: "\<forall>x \<in> set xs. x \<le> 15 \<Longrightarrow> \<forall>x \<in> set (merge_pairs xs). x \<le> 15"
  by (induction xs rule: merge_pairs.induct) auto

lemma merge_pairs_Nil: "merge_pairs xs = [] \<longleftrightarrow> xs = []"
  by (induction xs rule: merge_pairs.induct) auto

lemma merge_pairs_append:
  "xs = [] \<or> zs = [] \<or> last xs \<noteq> hd zs \<Longrightarrow> merge_pairs (xs @ zs) = merge_pairs xs @ merge_pairs zs"
proof (induction xs rule: merge_pairs.induct)
  case (1 x y ts)
  then show ?case by (cases "ts = []") auto
qed (cases zs; auto)+

lemma length_filter_nz: "length (filter (\<lambda>t. t \<noteq> 0) ts) + zeros ts = length ts"
  unfolding zeros_def by (induction ts) auto

lemma length_slide_left_ref: "length (slide_left_ref ts) = length ts"
proof -
  have "length (merge_pairs (filter (\<lambda>t. t \<noteq> 0) ts)) \<le> length ts"
    using length_merge_pairs [of "filter (\<lambda>t. t \<noteq> 0) ts"] length_filter_le [of "\<lambda>t. t \<noteq> 0" ts]
    by linarith
  then show ?thesis by (simp add: slide_left_ref_def Let_def)
qed

lemma slide_left_ref_le:
  assumes "\<forall>t \<in> set ts. t \<le> 15"
  shows "\<forall>t \<in> set (slide_left_ref ts). t \<le> 15"
proof -
  from assms have "\<forall>t \<in> set (filter (\<lambda>t. t \<noteq> 0) ts). t \<le> 15"
    by simp
  then have "\<forall>t \<in> set (merge_pairs (filter (\<lambda>t. t \<noteq> 0) ts)). t \<le> 15"
    by (rule merge_pairs_le)
  then show ?thesis
    unfolding slide_left_ref_def Let_def set_append set_replicate_conv_if by auto
qed

lemma zeros_slide_left_ref:
  "zeros (slide_left_ref ts) = length ts - length (merge_pairs (filter (\<lambda>t. t \<noteq> 0) ts))"
proof -
  have "\<forall>x \<in> set (merge_pairs (filter (\<lambda>t. t \<noteq> 0) ts)). 0 < x"
    by (rule merge_pairs_nonzero) simp
  then have "filter (\<lambda>t. t = 0) (merge_pairs (filter (\<lambda>t. t \<noteq> 0) ts)) = []"
    unfolding filter_empty_conv by fastforce
  then show ?thesis
    by (simp add: zeros_def slide_left_ref_def Let_def)
qed

lemma zeros_slide_mono: "zeros ts \<le> zeros (slide_left_ref ts)"
  using length_merge_pairs [of "filter (\<lambda>t. t \<noteq> 0) ts"] length_filter_nz [of ts]
  by (simp add: zeros_slide_left_ref)

lemma slide_eq_zeros:
  assumes "zeros (slide_left_ref ts) = zeros ts"
  shows "slide_left_ref ts = filter (\<lambda>t. t \<noteq> 0) ts @ replicate (zeros ts) 0"
proof -
  let ?f = "filter (\<lambda>t. t \<noteq> 0) ts"
  have "length (merge_pairs ?f) \<le> length ts"
    using length_merge_pairs [of ?f] length_filter_le [of "\<lambda>t. t \<noteq> 0" ts] by linarith
  with assms length_filter_nz [of ts] have "length (merge_pairs ?f) = length ?f"
    by (simp add: zeros_slide_left_ref)
  then have "merge_pairs ?f = ?f"
    by (rule merge_pairs_same_length)
  with length_filter_nz [of ts] show ?thesis
    by (simp add: slide_left_ref_def Let_def)
qed

lemma slide_idem_no_merge:
  assumes "zeros (slide_left_ref ts) = zeros ts"
  shows "slide_left_ref (slide_left_ref ts) = slide_left_ref ts"
proof -
  let ?f = "filter (\<lambda>t. t \<noteq> 0) ts"
  have s: "slide_left_ref ts = ?f @ replicate (zeros ts) 0"
    using assms by (rule slide_eq_zeros)
  have f: "filter (\<lambda>t. t \<noteq> 0) (?f @ replicate (zeros ts) 0) = ?f"
    by simp
  have "length (merge_pairs ?f) \<le> length ts"
    using length_merge_pairs [of ?f] length_filter_le [of "\<lambda>t. t \<noteq> 0" ts] by linarith
  with assms length_filter_nz [of ts] have "length (merge_pairs ?f) = length ?f"
    by (simp add: zeros_slide_left_ref)
  then have m: "merge_pairs ?f = ?f"
    by (rule merge_pairs_same_length)
  have "slide_left_ref (?f @ replicate (zeros ts) 0) = ?f @ replicate (zeros ts) 0"
    unfolding slide_left_ref_def Let_def f m by simp
  with s show ?thesis by simp
qed

lemma slide_changed_has_zero:
  assumes "slide_left_ref ts \<noteq> ts"
  shows "0 < zeros (slide_left_ref ts)"
proof (rule ccontr)
  assume "\<not> 0 < zeros (slide_left_ref ts)"
  then have z: "zeros (slide_left_ref ts) = 0" by simp
  with zeros_slide_mono [of ts] have z0: "zeros ts = 0" by simp
  with z have "slide_left_ref ts = filter (\<lambda>t. t \<noteq> 0) ts @ replicate (zeros ts) 0"
    by (intro slide_eq_zeros) simp
  moreover from z0 have "filter (\<lambda>t. t \<noteq> 0) ts = ts"
    using length_filter_nz [of ts] by (simp add: filter_id_conv zeros_def filter_empty_conv)
  ultimately show False using assms z0 by simp
qed

lemma slide_nonzero:
  assumes "zeros ts < length ts"
  shows "zeros (slide_left_ref ts) < length ts"
proof -
  from assms length_filter_nz [of ts] have "filter (\<lambda>t. t \<noteq> 0) ts \<noteq> []"
    by auto
  then have "merge_pairs (filter (\<lambda>t. t \<noteq> 0) ts) \<noteq> []"
    by (simp add: merge_pairs_Nil)
  then have "0 < length (merge_pairs (filter (\<lambda>t. t \<noteq> 0) ts))"
    by simp
  moreover from assms have "0 < length ts"
    by linarith
  ultimately have "length ts - length (merge_pairs (filter (\<lambda>t. t \<noteq> 0) ts)) < length ts"
    by arith
  then show ?thesis
    by (simp only: zeros_slide_left_ref)
qed

lemma tiles_of_move_left_row: "tiles_of_row (move_left_row r) = slide_left_ref (tiles_of_row r)"
proof -
  have "length (slide_left_ref (tiles_of_row r)) = 4"
    by (simp add: length_slide_left_ref length_tiles_of_row)
  then obtain a b c d where abcd: "slide_left_ref (tiles_of_row r) = [a, b, c, d]"
    by (auto simp: length_Suc_conv eval_nat_numeral)
  have "\<forall>t \<in> set (slide_left_ref (tiles_of_row r)). t \<le> 15"
    by (rule slide_left_ref_le) (simp add: tiles_of_row_le)
  with abcd have "a \<le> 15" "b \<le> 15" "c \<le> 15" "d \<le> 15"
    by simp_all
  then have "tiles_of_row (row_of_tiles [a, b, c, d]) = [a, b, c, d]"
    by (rule tiles_of_row_of_tiles)
  with abcd show ?thesis
    by (simp add: move_left_row_ref)
qed

section \<open>The merge score of the heuristic\<close>

lemma runs_Cons_hd: "runs (x # xs) \<noteq> [] \<and> hd (hd (runs (x # xs))) = x"
  by (cases "runs xs") auto

lemma runs_replicate_Cons:
  "p \<noteq> x \<Longrightarrow> runs (replicate (Suc n) p @ x # xs) = replicate (Suc n) p # runs (x # xs)"
proof (induction n)
  case 0
  with runs_Cons_hd [of x xs] show ?case
    by (cases "runs (x # xs)") auto
next
  case (Suc n)
  then show ?case by simp
qed

lemma runs_replicate: "runs (replicate (Suc n) p) = [replicate (Suc n) p]"
  by (induction n) auto

lemma run_score_replicate: "run_score (replicate (Suc n) p) = (if 0 < n then int n + 1 else 0)"
  unfolding run_score_def runs_replicate by simp

lemma run_score_replicate_Cons:
  "p \<noteq> x \<Longrightarrow>
     run_score (replicate (Suc n) p @ x # xs) = (if 0 < n then int n + 1 else 0) + run_score (x # xs)"
proof -
  assume "p \<noteq> x"
  then have "runs (replicate (Suc n) p @ x # xs) = replicate (Suc n) p # runs (x # xs)"
    by (rule runs_replicate_Cons)
  then show ?thesis
    unfolding run_score_def by (simp del: replicate_Suc replicate.simps runs.simps)
qed

lemma replicate_shift: "replicate (Suc (Suc n)) p @ xs = replicate (Suc n) p @ p # xs"
  by (induction n) simp_all

lemma heur_step_zero:
  "counter (heur_step s 0) = counter s" "prev (heur_step s 0) = prev s"
  "merges (heur_step s 0) = merges s"
  by (simp_all add: heur_step_def)

lemma heur_step_same:
  assumes "t \<noteq> 0" "prev s = int t"
  shows "counter (heur_step s t) = counter s + 1" "prev (heur_step s t) = int t"
    "merges (heur_step s t) = merges s"
  using assms by (simp_all add: heur_step_def)

lemma heur_step_other:
  assumes "t \<noteq> 0" "prev s \<noteq> int t" "0 \<le> counter s"
  shows "counter (heur_step s t) = 0" "prev (heur_step s t) = int t"
    "merges (heur_step s t) = (if 0 < counter s then merges s + (1 + counter s) else merges s)"
  using assms by (simp_all add: heur_step_def)

lemma heur_loop_score:
  assumes "0 \<le> counter s" and "prev s = int p" and "p = 0 \<longrightarrow> counter s = 0"
  shows "heur_result (foldl heur_step s ts) =
         merges s + run_score (replicate (Suc (nat (counter s))) p @ filter (\<lambda>t. t \<noteq> 0) ts)"
  using assms
proof (induction ts arbitrary: s p)
  case Nil
  have "run_score (replicate (Suc (nat (counter s))) p) =
      (if 0 < nat (counter s) then int (nat (counter s)) + 1 else 0)"
    by (rule run_score_replicate)
  with Nil show ?case
    by (simp add: heur_result_def del: replicate_Suc replicate.simps)
next
  case (Cons t ts)
  show ?case
  proof (cases "t = 0")
    case True
    have "heur_result (foldl heur_step (heur_step s t) ts) = merges (heur_step s t) +
        run_score (replicate (Suc (nat (counter (heur_step s t)))) p @ filter (\<lambda>t. t \<noteq> 0) ts)"
      using True Cons.prems by (intro Cons.IH) (simp_all add: heur_step_zero)
    with True show ?thesis
      by (simp add: heur_step_zero del: replicate_Suc replicate.simps)
  next
    case False
    show ?thesis
    proof (cases "p = t")
      case True
      have "heur_result (foldl heur_step (heur_step s t) ts) = merges (heur_step s t) +
          run_score (replicate (Suc (nat (counter (heur_step s t)))) p @ filter (\<lambda>t. t \<noteq> 0) ts)"
        using True False Cons.prems by (intro Cons.IH) (simp_all add: heur_step_same)
      moreover have "nat (counter s + 1) = Suc (nat (counter s))"
        using Cons.prems by simp
      ultimately show ?thesis
        using True False Cons.prems
        by (simp add: heur_step_same replicate_shift del: replicate_Suc replicate.simps)
    next
      case neq: False
      then have pt: "prev s \<noteq> int t"
        using Cons.prems by simp
      have "heur_result (foldl heur_step (heur_step s t) ts) = merges (heur_step s t) +
          run_score (replicate (Suc (nat (counter (heur_step s t)))) t @ filter (\<lambda>t. t \<noteq> 0) ts)"
        using False pt Cons.prems by (intro Cons.IH) (simp_all add: heur_step_other)
      moreover have "run_score (replicate (Suc (nat (counter s))) p @ t # filter (\<lambda>t. t \<noteq> 0) ts) =
          (if 0 < nat (counter s) then int (nat (counter s)) + 1 else 0)
            + run_score (t # filter (\<lambda>t. t \<noteq> 0) ts)"
        using neq by (rule run_score_replicate_Cons)
      ultimately show ?thesis
        using False pt Cons.prems by (simp add: heur_step_other)
    qed
  qed
qed

lemma heur_merges_eq: "heur_merges line = merge_score_len (tiles_of_line line)"
proof -
  define ts where "ts = filter (\<lambda>t. t \<noteq> 0) (tiles_of_line line)"
  have "heur_result (foldl heur_step \<lparr>empty_h = 0, merges = 0, prev = 0, counter = 0\<rparr> (tiles_of_line line)) =
      merges \<lparr>empty_h = 0, merges = 0, prev = 0, counter = 0\<rparr> +
      run_score (replicate (Suc (nat (counter \<lparr>empty_h = 0, merges = 0, prev = 0, counter = 0\<rparr>))) 0 @ ts)"
    unfolding ts_def by (rule heur_loop_score) simp_all
  then have "heur_merges line = run_score (0 # ts)"
    by (simp add: heur_merges_def heur_loop_def heur_result_def Let_def)
  also have "\<dots> = run_score ts"
  proof (cases ts)
    case Nil
    then show ?thesis by (simp add: run_score_def)
  next
    case (Cons x xs)
    then have "x \<in> set ts" by simp
    then have "0 \<noteq> x" by (auto simp: ts_def)
    from run_score_replicate_Cons [OF this, of 0 xs] Cons show ?thesis by simp
  qed
  finally show ?thesis
    by (simp add: merge_score_len_def merge_runs_def run_score_def ts_def)
qed

section \<open>Boards as rows and columns\<close>

lemma bit_transpose_board: "\<forall>n<64. bit (transpose_board x) n = bit x (tp n)"
  unfolding all_less_num by (simp add: transpose_board_def Let_def bit_simps tp_def all_less_num)

lemma board_eqI: "(\<forall>n<64. bit a n = bit b n) \<Longrightarrow> a = b" for a b :: board_t
  by (rule bit_word_eqI) simp

lemma transpose_board_involution: "transpose_board (transpose_board x) = x"
proof (rule board_eqI)
  show "\<forall>n<64. bit (transpose_board (transpose_board x)) n = bit x n"
    unfolding all_less_num by (simp add: bit_transpose_board tp_def all_less_num)
qed

lemma bit_join_rows:
  "\<forall>n<64. bit (join_rows r0 r1 r2 r3) n =
     (if n < 16 then bit r0 n else if n < 32 then bit r1 (n - 16)
      else if n < 48 then bit r2 (n - 32) else bit r3 (n - 48))"
  unfolding all_less_num by (simp add: join_rows_def bit_simps bit16_out all_less_num)

lemma bit_row_at: "\<forall>n<16. bit (row_at k b) n = bit b (16 * k + n)"
  unfolding all_less_num by (simp add: row_at_def ROW_MASK_def bit_simps all_less_num)

lemma row_eqI: "(\<forall>n<16. bit a n = bit b n) \<Longrightarrow> a = b" for a b :: row_t
  by (rule bit_word_eqI) simp

lemma row_at_join_rows:
  "row_at 0 (join_rows r0 r1 r2 r3) = r0" "row_at (Suc 0) (join_rows r0 r1 r2 r3) = r1"
  "row_at 2 (join_rows r0 r1 r2 r3) = r2" "row_at 3 (join_rows r0 r1 r2 r3) = r3"
proof -
  show "row_at 0 (join_rows r0 r1 r2 r3) = r0"
    by (rule row_eqI, unfold all_less_num) (simp add: bit_row_at bit_join_rows all_less_num)
  show "row_at (Suc 0) (join_rows r0 r1 r2 r3) = r1"
    by (rule row_eqI, unfold all_less_num) (simp add: bit_row_at bit_join_rows all_less_num)
  show "row_at 2 (join_rows r0 r1 r2 r3) = r2"
    by (rule row_eqI, unfold all_less_num) (simp add: bit_row_at bit_join_rows all_less_num)
  show "row_at 3 (join_rows r0 r1 r2 r3) = r3"
    by (rule row_eqI, unfold all_less_num) (simp add: bit_row_at bit_join_rows all_less_num)
qed

lemma join_rows_row_at: "join_rows (row_at 0 b) (row_at (Suc 0) b) (row_at 2 b) (row_at 3 b) = b"
  by (rule board_eqI, unfold all_less_num) (simp add: bit_row_at bit_join_rows all_less_num)

lemma xor_rows:
  "(((b XOR push_bit 0 (ucast t0)) XOR push_bit 16 (ucast t1)) XOR push_bit 32 (ucast t2))
     XOR push_bit 48 (ucast t3) =
   join_rows (row_at 0 b XOR t0) (row_at (Suc 0) b XOR t1) (row_at 2 b XOR t2) (row_at 3 b XOR t3)"
  for t0 t1 t2 t3 :: row_t
  by (rule board_eqI, unfold all_less_num)
    (simp add: bit_row_at bit_join_rows bit_simps bit16_out all_less_num)

lemma index_row_at:
  "ucast (drop_bit 0 b AND ROW_MASK) = row_at 0 b"
  "ucast (drop_bit 16 b AND ROW_MASK) = row_at (Suc 0) b"
  "ucast (drop_bit 32 b AND ROW_MASK) = row_at 2 b"
  "ucast (drop_bit 48 b AND ROW_MASK) = row_at 3 b"
  by (simp_all add: row_at_def)

lemma xor_cancel_left: "a XOR (a XOR c) = c" for a c :: row_t
  by (simp add: bit_eq_iff bit_simps)

lemma execute_move_2_rows:
  "execute_move_2 ai_init b =
     join_rows (move_left_row (row_at 0 b)) (move_left_row (row_at (Suc 0) b))
               (move_left_row (row_at 2 b)) (move_left_row (row_at 3 b))"
  unfolding execute_move_2_def Let_def index_row_at ai_init_tables xor_rows
  by (simp only: xor_cancel_left)

lemma execute_move_3_rows:
  "execute_move_3 ai_init b =
     join_rows (move_right_row (row_at 0 b)) (move_right_row (row_at (Suc 0) b))
               (move_right_row (row_at 2 b)) (move_right_row (row_at 3 b))"
  unfolding execute_move_3_def Let_def index_row_at ai_init_tables xor_rows
  by (simp only: xor_cancel_left)

lemma mirror_rows:
  "mirror b = join_rows (reverse_row (row_at 0 b)) (reverse_row (row_at (Suc 0) b))
                        (reverse_row (row_at 2 b)) (reverse_row (row_at 3 b))"
  unfolding mirror_def index_row_at join_rows_def ..

lemma mirror_join_rows:
  "mirror (join_rows r0 r1 r2 r3) =
     join_rows (reverse_row r0) (reverse_row r1) (reverse_row r2) (reverse_row r3)"
  by (simp add: mirror_rows row_at_join_rows)

lemma move_3_mirror: "execute_move_3 ai_init b = mirror (execute_move_2 ai_init (mirror b))"
  by (simp add: execute_move_3_rows execute_move_2_rows mirror_join_rows row_at_join_rows
      mirror_rows [of b] move_right_row_def)

lemma bit_unpack_col:
  "\<forall>n<64. bit (unpack_col r) n = (n mod 16 < 4 \<and> bit r (4 * (n div 16) + n mod 16))"
  unfolding all_less_num
  by (simp add: unpack_col_def COL_MASK_def Let_def bit_simps bit16_out all_less_num)

lemma bit_join_cols:
  "\<forall>n<64. bit (join_cols c0 c1 c2 c3) n =
     (if n mod 16 < 4 then bit c0 (4 * (n div 16) + n mod 4)
      else if n mod 16 < 8 then bit c1 (4 * (n div 16) + n mod 4)
      else if n mod 16 < 12 then bit c2 (4 * (n div 16) + n mod 4)
      else bit c3 (4 * (n div 16) + n mod 4))"
  unfolding all_less_num
  by (simp add: join_cols_def bit_simps bit_unpack_col all_less_num)

lemma transpose_join_rows: "transpose_board (join_rows r0 r1 r2 r3) = join_cols r0 r1 r2 r3"
  by (rule board_eqI, unfold all_less_num)
    (simp add: bit_transpose_board tp_def bit_join_rows bit_join_cols all_less_num)

lemma eq_eq_cancel: "(p = (p = q)) = q"
  by blast

lemma xor_cols:
  "(((join_cols c0 c1 c2 c3 XOR push_bit 0 (unpack_col c0 XOR unpack_col d0))
      XOR push_bit 4 (unpack_col c1 XOR unpack_col d1))
      XOR push_bit 8 (unpack_col c2 XOR unpack_col d2))
      XOR push_bit 12 (unpack_col c3 XOR unpack_col d3) = join_cols d0 d1 d2 d3"
  by (rule board_eqI, unfold all_less_num)
    (simp add: bit_join_cols bit_unpack_col bit_simps eq_eq_cancel all_less_num)

lemma board_as_cols:
  "b = join_cols (row_at 0 (transpose_board b)) (row_at (Suc 0) (transpose_board b))
                 (row_at 2 (transpose_board b)) (row_at 3 (transpose_board b))"
proof -
  have "b = transpose_board (transpose_board b)"
    by (simp add: transpose_board_involution)
  also have "\<dots> = transpose_board (join_rows (row_at 0 (transpose_board b))
      (row_at (Suc 0) (transpose_board b)) (row_at 2 (transpose_board b))
      (row_at 3 (transpose_board b)))"
    by (simp only: join_rows_row_at)
  finally show ?thesis
    by (simp only: transpose_join_rows)
qed

lemma move_0_transpose:
  "execute_move_0 ai_init b = transpose_board (execute_move_2 ai_init (transpose_board b))"
proof -
  define t where "t = transpose_board b"
  have "execute_move_0 ai_init b =
      (((b XOR push_bit 0 (unpack_col (row_at 0 t) XOR unpack_col (move_left_row (row_at 0 t))))
        XOR push_bit 4 (unpack_col (row_at (Suc 0) t) XOR unpack_col (move_left_row (row_at (Suc 0) t))))
        XOR push_bit 8 (unpack_col (row_at 2 t) XOR unpack_col (move_left_row (row_at 2 t))))
        XOR push_bit 12 (unpack_col (row_at 3 t) XOR unpack_col (move_left_row (row_at 3 t)))"
    unfolding execute_move_0_def Let_def index_row_at ai_init_tables t_def ..
  also have "\<dots> =
      join_cols (move_left_row (row_at 0 t)) (move_left_row (row_at (Suc 0) t))
                (move_left_row (row_at 2 t)) (move_left_row (row_at 3 t))"
  proof -
    have b: "b = join_cols (row_at 0 t) (row_at (Suc 0) t) (row_at 2 t) (row_at 3 t)"
      unfolding t_def by (rule board_as_cols)
    show ?thesis
      by (subst b) (rule xor_cols)
  qed
  finally have "execute_move_0 ai_init b =
      join_cols (move_left_row (row_at 0 t)) (move_left_row (row_at (Suc 0) t))
                (move_left_row (row_at 2 t)) (move_left_row (row_at 3 t))" .
  then show ?thesis
    by (simp only: execute_move_2_rows transpose_join_rows t_def)
qed

lemma move_1_transpose:
  "execute_move_1 ai_init b = transpose_board (execute_move_3 ai_init (transpose_board b))"
proof -
  define t where "t = transpose_board b"
  have "execute_move_1 ai_init b =
      (((b XOR push_bit 0 (unpack_col (row_at 0 t) XOR unpack_col (move_right_row (row_at 0 t))))
        XOR push_bit 4 (unpack_col (row_at (Suc 0) t) XOR unpack_col (move_right_row (row_at (Suc 0) t))))
        XOR push_bit 8 (unpack_col (row_at 2 t) XOR unpack_col (move_right_row (row_at 2 t))))
        XOR push_bit 12 (unpack_col (row_at 3 t) XOR unpack_col (move_right_row (row_at 3 t)))"
    unfolding execute_move_1_def Let_def index_row_at ai_init_tables t_def ..
  also have "\<dots> =
      join_cols (move_right_row (row_at 0 t)) (move_right_row (row_at (Suc 0) t))
                (move_right_row (row_at 2 t)) (move_right_row (row_at 3 t))"
  proof -
    have b: "b = join_cols (row_at 0 t) (row_at (Suc 0) t) (row_at 2 t) (row_at 3 t)"
      unfolding t_def by (rule board_as_cols)
    show ?thesis
      by (subst b) (rule xor_cols)
  qed
  finally have "execute_move_1 ai_init b =
      join_cols (move_right_row (row_at 0 t)) (move_right_row (row_at (Suc 0) t))
                (move_right_row (row_at 2 t)) (move_right_row (row_at 3 t))" .
  then show ?thesis
    by (simp only: execute_move_3_rows transpose_join_rows t_def)
qed

section \<open>Counting empty cells\<close>

lemma nib_eqI:
  fixes x :: "'a::len word" and y :: "'b::len word"
  assumes "\<forall>n<4. bit x (i + n) = bit y (j + n)"
  shows "unat (drop_bit i x AND 0xf) = unat (drop_bit j y AND 0xf)"
proof (rule bit_eqI)
  fix n
  have mx: "(0xf :: 'a word) = mask 4" and my: "(0xf :: 'b word) = mask 4"
    by (simp_all add: mask_eq_exp_minus_1)
  have "bit (unat (drop_bit i x AND 0xf)) n \<longleftrightarrow> n < 4 \<and> bit x (i + n)"
    unfolding mx by (auto simp: bit_simps dest: bit_imp_le_length)
  moreover have "bit (unat (drop_bit j y AND 0xf)) n \<longleftrightarrow> n < 4 \<and> bit y (j + n)"
    unfolding my by (auto simp: bit_simps dest: bit_imp_le_length)
  ultimately show "bit (unat (drop_bit i x AND 0xf)) n = bit (unat (drop_bit j y AND 0xf)) n"
    using assms by auto
qed

lemma list16: "[0..<16] = [0, 1, 2, 3, 4, 5, 6, 7, 8, 9, 10, 11, 12, 13, 14, 15 :: nat]"
  by code_simp

lemma nibbles_eq:
  "nibbles b = [nibble b 0, nibble b 1, nibble b 2, nibble b 3, nibble b 4, nibble b 5,
     nibble b 6, nibble b 7, nibble b 8, nibble b 9, nibble b 10, nibble b 11, nibble b 12,
     nibble b 13, nibble b 14, nibble b 15]"
  unfolding nibbles_def list16 by simp

lemma nibble_row_at:
  "\<forall>j<4. nibble b (4 * k + j) = unat (drop_bit (4 * j) (row_at k b) AND 0xf)"
proof (intro allI impI)
  fix j :: nat
  assume j: "j < 4"
  have "\<forall>n<4. bit b (4 * (4 * k + j) + n) = bit (row_at k b) (4 * j + n)"
  proof (intro allI impI)
    fix n :: nat
    assume "n < 4"
    with j have "4 * j + n < 16" by simp
    with bit_row_at [of k b] have "bit (row_at k b) (4 * j + n) = bit b (16 * k + (4 * j + n))"
      by blast
    then show "bit b (4 * (4 * k + j) + n) = bit (row_at k b) (4 * j + n)"
      by (simp add: algebra_simps)
  qed
  then show "nibble b (4 * k + j) = unat (drop_bit (4 * j) (row_at k b) AND 0xf)"
    unfolding nibble_def by (rule nib_eqI)
qed

lemma nibbles_rows:
  "nibbles b = tiles_of_row (row_at 0 b) @ tiles_of_row (row_at (Suc 0) b) @
               tiles_of_row (row_at 2 b) @ tiles_of_row (row_at 3 b)"
  using nibble_row_at [of b 0] nibble_row_at [of b 1] nibble_row_at [of b 2] nibble_row_at [of b 3]
  unfolding all_less_num
  by (simp add: nibbles_eq tiles_of_row_eq all_less_num)

lemma empty_cells_rows:
  "empty_cells b = zeros (tiles_of_row (row_at 0 b)) + zeros (tiles_of_row (row_at (Suc 0) b)) +
                   zeros (tiles_of_row (row_at 2 b)) + zeros (tiles_of_row (row_at 3 b))"
  by (simp add: empty_cells_def nibbles_rows zeros_def)

lemma zeros_sum: "zeros ts = sum_list (map is_zero ts)"
  by (induction ts) (simp_all add: zeros_def is_zero_def)

lemma bit_transpose_nibble:
  "\<forall>i<16. \<forall>n<4. bit (transpose_board b) (4 * i + n) = bit b (4 * (4 * (i mod 4) + i div 4) + n)"
  unfolding all_less_num by (simp add: bit_transpose_board tp_def all_less_num)

lemma nibble_transpose:
  "\<forall>i<16. nibble (transpose_board b) i = nibble b (4 * (i mod 4) + i div 4)"
proof (intro allI impI)
  fix i :: nat
  assume "i < 16"
  with bit_transpose_nibble [of b]
  have "\<forall>n<4. bit (transpose_board b) (4 * i + n) = bit b (4 * (4 * (i mod 4) + i div 4) + n)"
    by blast
  then show "nibble (transpose_board b) i = nibble b (4 * (i mod 4) + i div 4)"
    unfolding nibble_def by (rule nib_eqI)
qed

lemma empty_cells_transpose: "empty_cells (transpose_board b) = empty_cells b"
proof -
  have "empty_cells x = sum_list (map is_zero (nibbles x))" for x
    using zeros_sum [of "nibbles x"] by (simp add: empty_cells_def zeros_def)
  then show ?thesis
    using nibble_transpose [of b] unfolding all_less_num
    by (simp add: nibbles_eq all_less_num)
qed

lemma bit_reverse_tile:
  "\<forall>j<4. \<forall>n<4. bit (reverse_row r) (4 * j + n) = bit r (4 * (3 - j) + n)"
  unfolding all_less_num by (simp add: bit_reverse_row all_less_num)

lemma tile_reverse_row:
  "\<forall>j<4. unat (drop_bit (4 * j) (reverse_row r) AND 0xf) = unat (drop_bit (4 * (3 - j)) r AND 0xf)"
proof (intro allI impI)
  fix j :: nat
  assume "j < 4"
  with bit_reverse_tile [of r]
  have "\<forall>n<4. bit (reverse_row r) (4 * j + n) = bit r (4 * (3 - j) + n)"
    by blast
  then show "unat (drop_bit (4 * j) (reverse_row r) AND 0xf) = unat (drop_bit (4 * (3 - j)) r AND 0xf)"
    by (rule nib_eqI)
qed

lemma tiles_of_reverse_row: "tiles_of_row (reverse_row r) = rev (tiles_of_row r)"
  using tile_reverse_row [of r] unfolding all_less_num
  by (simp add: tiles_of_row_eq all_less_num)

lemma zeros_rev: "zeros (rev ts) = zeros ts"
  by (simp add: zeros_def flip: rev_filter)

lemma empty_cells_join_rows:
  "empty_cells (join_rows r0 r1 r2 r3) =
     zeros (tiles_of_row r0) + zeros (tiles_of_row r1) + zeros (tiles_of_row r2) + zeros (tiles_of_row r3)"
  by (simp add: empty_cells_rows row_at_join_rows)

lemma empty_cells_mirror: "empty_cells (mirror b) = empty_cells b"
  unfolding mirror_rows empty_cells_join_rows tiles_of_reverse_row zeros_rev
  by (simp add: empty_cells_rows)

lemma mirror_involution: "mirror (mirror b) = b"
  by (simp add: mirror_rows [of b] mirror_join_rows reverse_row_involution join_rows_row_at)

section \<open>Empty cells under a move\<close>

lemma zeros_le_length: "zeros ts \<le> length ts"
  by (simp add: zeros_def)

lemma slide_all_zero:
  assumes "zeros ts = length ts"
  shows "slide_left_ref ts = ts"
proof -
  from assms length_filter_nz [of ts] have f: "filter (\<lambda>t. t \<noteq> 0) ts = []"
    by simp
  then have "\<forall>t \<in> set ts. t = 0"
    by (simp add: filter_empty_conv)
  then have "ts = replicate (length ts) 0"
    by (simp add: replicate_length_same)
  with f show ?thesis
    by (simp add: slide_left_ref_def)
qed

lemma zeros_move_left_row_mono: "zeros (tiles_of_row r) \<le> zeros (tiles_of_row (move_left_row r))"
  by (simp add: tiles_of_move_left_row zeros_slide_mono)

lemma move_left_row_idem:
  assumes "zeros (tiles_of_row (move_left_row r)) = zeros (tiles_of_row r)"
  shows "move_left_row (move_left_row r) = move_left_row r"
proof -
  from assms have "slide_left_ref (slide_left_ref (tiles_of_row r)) = slide_left_ref (tiles_of_row r)"
    by (intro slide_idem_no_merge) (simp add: tiles_of_move_left_row)
  moreover have "move_left_row (move_left_row r) =
      row_of_tiles (slide_left_ref (slide_left_ref (tiles_of_row r)))"
    by (simp only: move_left_row_ref [of "move_left_row r"] tiles_of_move_left_row)
  ultimately show ?thesis
    by (simp only: move_left_row_ref [of r])
qed

lemma move_left_row_changed:
  assumes "move_left_row r \<noteq> r"
  shows "0 < zeros (tiles_of_row (move_left_row r)) \<and> zeros (tiles_of_row (move_left_row r)) < 4"
proof -
  have neq: "slide_left_ref (tiles_of_row r) \<noteq> tiles_of_row r"
  proof
    assume "slide_left_ref (tiles_of_row r) = tiles_of_row r"
    then have "move_left_row r = r"
      by (simp add: move_left_row_ref row_of_tiles_of_row)
    with assms show False by simp
  qed
  then have "0 < zeros (slide_left_ref (tiles_of_row r))"
    by (rule slide_changed_has_zero)
  moreover have "zeros (tiles_of_row r) < length (tiles_of_row r)"
    using neq slide_all_zero [of "tiles_of_row r"] zeros_le_length [of "tiles_of_row r"]
    by (cases "zeros (tiles_of_row r) = length (tiles_of_row r)") auto
  then have "zeros (slide_left_ref (tiles_of_row r)) < length (tiles_of_row r)"
    by (rule slide_nonzero)
  ultimately show ?thesis
    by (simp add: tiles_of_move_left_row length_tiles_of_row)
qed

lemma zeros_tiles_le: "zeros (tiles_of_row r) \<le> 4"
  using zeros_le_length [of "tiles_of_row r"] by (simp add: length_tiles_of_row)

lemma good_move_2: "good_move (execute_move_2 ai_init)"
  unfolding good_move_def
proof (intro allI conjI impI)
  fix b
  define r0 r1 r2 r3 where "r0 = row_at 0 b" and "r1 = row_at (Suc 0) b"
    and "r2 = row_at 2 b" and "r3 = row_at 3 b"
  have b: "b = join_rows r0 r1 r2 r3"
    by (simp add: r0_def r1_def r2_def r3_def join_rows_row_at)
  have m: "execute_move_2 ai_init b =
      join_rows (move_left_row r0) (move_left_row r1) (move_left_row r2) (move_left_row r3)"
    by (simp add: execute_move_2_rows r0_def r1_def r2_def r3_def)
  have eb: "empty_cells b = zeros (tiles_of_row r0) + zeros (tiles_of_row r1) +
      zeros (tiles_of_row r2) + zeros (tiles_of_row r3)"
    by (subst b) (rule empty_cells_join_rows)
  have em: "empty_cells (execute_move_2 ai_init b) =
      zeros (tiles_of_row (move_left_row r0)) + zeros (tiles_of_row (move_left_row r1)) +
      zeros (tiles_of_row (move_left_row r2)) + zeros (tiles_of_row (move_left_row r3))"
    by (simp only: m empty_cells_join_rows)
  note mono = zeros_move_left_row_mono [of r0] zeros_move_left_row_mono [of r1]
    zeros_move_left_row_mono [of r2] zeros_move_left_row_mono [of r3]
  from mono show "empty_cells b \<le> empty_cells (execute_move_2 ai_init b)"
    unfolding eb em by linarith
  {
    assume "empty_cells (execute_move_2 ai_init b) = empty_cells b"
    with mono have "zeros (tiles_of_row (move_left_row r0)) = zeros (tiles_of_row r0)"
      "zeros (tiles_of_row (move_left_row r1)) = zeros (tiles_of_row r1)"
      "zeros (tiles_of_row (move_left_row r2)) = zeros (tiles_of_row r2)"
      "zeros (tiles_of_row (move_left_row r3)) = zeros (tiles_of_row r3)"
      unfolding eb em by linarith+
    then have "move_left_row (move_left_row r0) = move_left_row r0"
      "move_left_row (move_left_row r1) = move_left_row r1"
      "move_left_row (move_left_row r2) = move_left_row r2"
      "move_left_row (move_left_row r3) = move_left_row r3"
      by (simp_all add: move_left_row_idem)
    then show "execute_move_2 ai_init (execute_move_2 ai_init b) = execute_move_2 ai_init b"
      by (simp add: execute_move_2_rows [of "join_rows _ _ _ _"] m row_at_join_rows)
  }
  {
    assume "execute_move_2 ai_init b \<noteq> b"
    then have "move_left_row r0 \<noteq> r0 \<or> move_left_row r1 \<noteq> r1 \<or> move_left_row r2 \<noteq> r2
        \<or> move_left_row r3 \<noteq> r3"
      using b m by auto
    with move_left_row_changed [of r0] move_left_row_changed [of r1]
      move_left_row_changed [of r2] move_left_row_changed [of r3]
      zeros_tiles_le [of "move_left_row r0"] zeros_tiles_le [of "move_left_row r1"]
      zeros_tiles_le [of "move_left_row r2"] zeros_tiles_le [of "move_left_row r3"]
    show "0 < empty_cells (execute_move_2 ai_init b)" "empty_cells (execute_move_2 ai_init b) < 16"
      unfolding em by linarith+
  }
qed

lemma good_move_conjugate:
  assumes f: "good_move f"
    and inv: "\<And>x. p (p x) = x"
    and cnt: "\<And>x. empty_cells (p x) = empty_cells x"
    and g: "\<And>x. g x = p (f (p x))"
  shows "good_move g"
  unfolding good_move_def
proof (intro allI conjI impI)
  fix b
  from f have fb: "empty_cells (p b) \<le> empty_cells (f (p b))"
    "empty_cells (f (p b)) = empty_cells (p b) \<Longrightarrow> f (f (p b)) = f (p b)"
    "f (p b) \<noteq> p b \<Longrightarrow> 0 < empty_cells (f (p b)) \<and> empty_cells (f (p b)) < 16"
    unfolding good_move_def by blast+
  from fb(1) show "empty_cells b \<le> empty_cells (g b)"
    by (simp add: g cnt)
  {
    assume "empty_cells (g b) = empty_cells b"
    then have "f (f (p b)) = f (p b)"
      by (intro fb(2)) (simp add: g cnt)
    then show "g (g b) = g b"
      by (simp add: g inv)
  }
  {
    assume "g b \<noteq> b"
    then have "f (p b) \<noteq> p b"
      using inv by (auto simp: g)
    from fb(3) [OF this] show "0 < empty_cells (g b)" "empty_cells (g b) < 16"
      by (simp_all add: g cnt)
  }
qed

lemma good_move_3: "good_move (execute_move_3 ai_init)"
  using good_move_2 mirror_involution empty_cells_mirror move_3_mirror
  by (rule good_move_conjugate)

lemma good_move_0: "good_move (execute_move_0 ai_init)"
  using good_move_2 transpose_board_involution empty_cells_transpose move_0_transpose
  by (rule good_move_conjugate)

lemma good_move_1: "good_move (execute_move_1 ai_init)"
  using good_move_3 transpose_board_involution empty_cells_transpose move_1_transpose
  by (rule good_move_conjugate)

section \<open>The nibble-parallel count\<close>

lemma val16_digits16: "val16 (digits16 k v) = v mod 16 ^ k"
proof (induction k arbitrary: v)
  case 0
  show ?case by simp
next
  case (Suc k)
  have "v mod (16 * 16 ^ k) = 16 * (v div 16 mod 16 ^ k) + v mod 16"
    by (rule mod_mult2_eq)
  moreover have "val16 (digits16 (Suc k) v) = v mod 16 + 16 * val16 (digits16 k (v div 16))"
    by simp
  ultimately show ?case
    by (simp only: Suc.IH power_Suc add.commute)
qed

lemma unat_nibble_0: "unat (y AND 0xf) = unat y mod 16" for y :: board_t
proof -
  have "(0xf :: board_t) = mask 4"
    by (simp add: mask_eq_exp_minus_1)
  then have "y AND 0xf = take_bit 4 y"
    by (simp add: take_bit_eq_mask)
  then have "unat (y AND 0xf) = take_bit 4 (unat y)"
    by (simp only: unsigned_take_bit_eq)
  then show ?thesis
    by (simp add: take_bit_eq_mod)
qed

lemma nibble_div_mod: "nibble y i = unat y div 16 ^ i mod 16"
proof -
  have "unat (drop_bit (4 * i) y) = drop_bit (4 * i) (unat y)"
    by (rule unat_drop_bit_eq)
  also have "\<dots> = unat y div 2 ^ (4 * i)"
    by (rule drop_bit_eq_div)
  also have "(2 :: nat) ^ (4 * i) = 16 ^ i"
    by (simp add: power_mult)
  finally show ?thesis
    by (simp add: nibble_def unat_nibble_0)
qed

lemma digits16_div_mod: "digits16 k (v div 16 ^ i) = map (\<lambda>j. v div 16 ^ j mod 16) [i..<i + k]"
proof (induction k arbitrary: i)
  case 0
  show ?case by simp
next
  case (Suc k)
  have "v div 16 ^ i div 16 = v div 16 ^ Suc i"
    by (simp only: power_Suc2 div_mult2_eq)
  with Suc [of "Suc i"] show ?case
    by (simp add: upt_rec [of i])
qed

lemma nibbles_digits16: "nibbles y = digits16 16 (unat y)"
proof -
  have "digits16 16 (unat y div 16 ^ 0) = map (\<lambda>j. unat y div 16 ^ j mod 16) [0..<0 + 16]"
    by (rule digits16_div_mod)
  then have "digits16 16 (unat y) = map (\<lambda>j. unat y div 16 ^ j mod 16) [0..<16]"
    by (simp del: upt_rec_numeral)
  moreover have "nibble y = (\<lambda>j. unat y div 16 ^ j mod 16)"
    by (rule ext) (rule nibble_div_mod)
  ultimately show ?thesis
    by (simp only: nibbles_def)
qed

lemma unat_val16: "unat y = val16 (nibbles y)" for y :: board_t
proof -
  have "unat y < 2 ^ 64"
    using unsigned_less [of y, where 'a = nat] by simp
  also have "(2 :: nat) ^ 64 = 16 ^ 16"
    by simp
  finally have "unat y mod 16 ^ 16 = unat y"
    by (rule mod_less)
  then show ?thesis
    by (simp only: nibbles_digits16 val16_digits16)
qed

lemma val16_append: "val16 (as @ bs) = val16 as + 16 ^ length as * val16 bs"
  by (induction as) (simp_all add: algebra_simps)

lemma val16_less: "\<forall>d \<in> set ds. d < 16 \<Longrightarrow> val16 ds < 16 ^ length ds"
proof (induction ds)
  case Nil
  show ?case by simp
next
  case (Cons d ds)
  then have "d < 16" and "val16 ds < 16 ^ length ds"
    by simp_all
  then have "d + 16 * val16 ds < 16 + 16 * val16 ds" and "16 + 16 * val16 ds \<le> 16 * 16 ^ length ds"
    by simp_all
  then show ?case
    by simp
qed

lemma val16_add: "length as = length bs \<Longrightarrow> val16 (map2 (+) as bs) = val16 as + val16 bs"
  by (induction as bs rule: list_induct2) simp_all

lemma half_val:
  assumes len: "length as = m" "length bs = m"
    and small: "\<forall>d \<in> set as. d \<le> 7" "\<forall>d \<in> set bs. d \<le> 7"
  shows "(val16 (as @ bs) mod 16 ^ m + val16 (as @ bs) div 16 ^ m) mod 16 ^ m = val16 (map2 (+) as bs)"
proof -
  have a: "val16 as < 16 ^ m"
    using val16_less [of as] small(1) len(1) by fastforce
  have v: "val16 (as @ bs) = val16 as + 16 ^ m * val16 bs"
    by (simp add: val16_append len)
  have "val16 (as @ bs) mod 16 ^ m = val16 as"
    using a by (simp add: v)
  moreover have "val16 (as @ bs) div 16 ^ m = val16 bs"
    using a by (simp add: v)
  moreover have "\<forall>d \<in> set (map2 (+) as bs). d < 16"
  proof
    fix d
    assume "d \<in> set (map2 (+) as bs)"
    then obtain x y where "(x, y) \<in> set (zip as bs)" and d: "d = x + y"
      by auto
    then have "x \<in> set as" and "y \<in> set bs"
      by (auto dest: set_zip_leftD set_zip_rightD)
    with small have "x \<le> 7" and "y \<le> 7"
      by simp_all
    with d show "d < 16"
      by simp
  qed
  then have "val16 (map2 (+) as bs) < 16 ^ m"
    using val16_less [of "map2 (+) as bs"] len by simp
  ultimately show ?thesis
    using len by (simp add: val16_add)
qed

lemma fold_mod:
  fixes a M w :: nat
  assumes "a dvd M" "0 < a"
  shows "((w + w div a) mod M) mod a = ((w mod (a * a)) mod a + (w mod (a * a)) div a) mod a"
proof -
  have "((w + w div a) mod M) mod a = (w + w div a) mod a"
    using assms(1) by (rule mod_mod_cancel)
  also have "\<dots> = (w mod a + w div a mod a) mod a"
    by (rule mod_add_eq [symmetric])
  also have "w mod a = (w mod (a * a)) mod a"
    by (simp add: mod_mod_cancel)
  also have "w div a mod a = (w mod (a * a)) div a"
  proof -
    have "w mod (a * a) = a * (w div a mod a) + w mod a"
      by (rule mod_mult2_eq)
    then show ?thesis
      using assms(2) by simp
  qed
  finally show ?thesis .
qed

lemma sum_list_map2_add:
  "length as = length bs \<Longrightarrow> sum_list (map2 (+) as bs) = sum_list as + sum_list bs"
  for as bs :: "nat list"
  by (induction as bs rule: list_induct2) simp_all

lemma halve_props:
  assumes len: "length ds = 2 * m" and small: "\<forall>d \<in> set ds. d \<le> c"
  shows "length (halve ds) = m"
    and "\<forall>d \<in> set (halve ds). d \<le> 2 * c"
    and "sum_list (halve ds) = sum_list ds"
    and "c \<le> 7 \<Longrightarrow> (val16 ds mod 16 ^ m + val16 ds div 16 ^ m) mod 16 ^ m = val16 (halve ds)"
proof -
  define as bs where "as = take m ds" and "bs = drop m ds"
  have ds: "ds = as @ bs" and la: "length as = m" and lb: "length bs = m"
    using len by (simp_all add: as_def bs_def)
  have h: "halve ds = map2 (+) as bs"
    using len by (simp add: halve_def as_def bs_def)
  from small have sa: "\<forall>d \<in> set as. d \<le> c" and sb: "\<forall>d \<in> set bs. d \<le> c"
    by (simp_all add: ds)
  show "length (halve ds) = m"
    by (simp add: h la lb)
  show "\<forall>d \<in> set (halve ds). d \<le> 2 * c"
  proof
    fix d
    assume "d \<in> set (halve ds)"
    then obtain x y where "(x, y) \<in> set (zip as bs)" and d: "d = x + y"
      by (auto simp: h)
    then have "x \<in> set as" and "y \<in> set bs"
      by (auto dest: set_zip_leftD set_zip_rightD)
    with sa sb have "x \<le> c" and "y \<le> c"
      by simp_all
    with d show "d \<le> 2 * c"
      by simp
  qed
  show "sum_list (halve ds) = sum_list ds"
    by (simp only: h) (simp add: ds sum_list_map2_add la lb)
  show "(val16 ds mod 16 ^ m + val16 ds div 16 ^ m) mod 16 ^ m = val16 (halve ds)" if "c \<le> 7"
  proof -
    from sa sb that have "\<forall>d \<in> set as. d \<le> 7" and "\<forall>d \<in> set bs. d \<le> 7"
      by fastforce+
    with la lb have "(val16 (as @ bs) mod 16 ^ m + val16 (as @ bs) div 16 ^ m) mod 16 ^ m =
        val16 (map2 (+) as bs)"
      by (rule half_val)
    then show ?thesis
      by (simp only: h) (simp only: ds)
  qed
qed

lemma unat_fold_step: "unat (w + drop_bit k w) = (unat w + unat w div 2 ^ k) mod 2 ^ 64"
  for w :: board_t
proof -
  have "unat (drop_bit k w) = drop_bit k (unat w)"
    by (rule unat_drop_bit_eq)
  then have "unat (drop_bit k w) = unat w div 2 ^ k"
    by (simp only: drop_bit_eq_div)
  moreover have "unat (w + drop_bit k w) = (unat w + unat (drop_bit k w)) mod 2 ^ 64"
    by (simp add: unat_word_ariths)
  ultimately show ?thesis
    by simp
qed

lemma sum_nibbles:
  fixes x3 :: board_t
  assumes v: "unat x3 = val16 ds" and len: "length ds = 16" and small: "\<forall>d \<in> set ds. d \<le> 1"
  defines "x4 \<equiv> x3 + drop_bit 32 x3"
  defines "x5 \<equiv> x4 + drop_bit 16 x4"
  defines "x6 \<equiv> x5 + drop_bit 8 x5"
  defines "x7 \<equiv> x6 + drop_bit 4 x6"
  shows "unat (x7 AND 0xf) = sum_list ds mod 16"
proof -
  have d64: "(16 :: nat) ^ 8 dvd 2 ^ 64" "(16 :: nat) ^ 4 dvd 2 ^ 64" "(16 :: nat) ^ 2 dvd 2 ^ 64"
    "(16 :: nat) ^ 1 dvd 2 ^ 64"
    by simp_all
  have p: "(2 :: nat) ^ 32 = 16 ^ 8" "(2 :: nat) ^ 16 = 16 ^ 4" "(2 :: nat) ^ 8 = 16 ^ 2"
    "(2 :: nat) ^ 4 = 16 ^ 1"
    by simp_all
  note h16 = halve_props [of ds 8 1]
  note h8 = halve_props [of "halve ds" 4 2]
  note h4 = halve_props [of "halve (halve ds)" 2 4]
  have l8: "length (halve ds) = 8" and s8: "\<forall>d \<in> set (halve ds). d \<le> 2"
    and t8: "sum_list (halve ds) = sum_list ds"
    using h16(1-3) len small by simp_all
  have l4: "length (halve (halve ds)) = 4" and s4: "\<forall>d \<in> set (halve (halve ds)). d \<le> 4"
    and t4: "sum_list (halve (halve ds)) = sum_list ds"
    using h8(1-3) l8 s8 t8 by simp_all
  have l2: "length (halve (halve (halve ds))) = 2"
    and s2: "\<forall>d \<in> set (halve (halve (halve ds))). d \<le> 8"
    and t2: "sum_list (halve (halve (halve ds))) = sum_list ds"
    using h4(1-3) l4 s4 t4 by simp_all
  have "unat x3 < 16 ^ 8 * 16 ^ 8"
    using unsigned_less [of x3, where 'a = nat] by simp
  then have "unat x3 mod (16 ^ 8 * 16 ^ 8) = val16 ds"
    by (simp only: mod_less v)
  then have m4: "unat x4 mod 16 ^ 8 = val16 (halve ds)"
    unfolding x4_def unat_fold_step p
    using fold_mod [OF d64(1), of "unat x3"] h16(4) len small by simp
  have "unat x4 mod (16 ^ 4 * 16 ^ 4) = val16 (halve ds)"
    using m4 by simp
  then have m5: "unat x5 mod 16 ^ 4 = val16 (halve (halve ds))"
    unfolding x5_def unat_fold_step p
    using fold_mod [OF d64(2), of "unat x4"] h8(4) l8 s8 by simp
  have "unat x5 mod (16 ^ 2 * 16 ^ 2) = val16 (halve (halve ds))"
    using m5 by simp
  then have m6: "unat x6 mod 16 ^ 2 = val16 (halve (halve (halve ds)))"
    unfolding x6_def unat_fold_step p
    using fold_mod [OF d64(3), of "unat x5"] h4(4) l4 s4 by simp
  from l2 obtain a b where ab: "halve (halve (halve ds)) = [a, b]"
    by (auto simp: length_Suc_conv eval_nat_numeral)
  with s2 t2 have a8: "a \<le> 8" and sum: "a + b = sum_list ds"
    by simp_all
  have "unat x6 mod (16 ^ 1 * 16 ^ 1) = a + 16 * b"
    using m6 ab by simp
  then have "unat x7 mod 16 ^ 1 = (a + b) mod 16"
    unfolding x7_def unat_fold_step p
    using fold_mod [OF d64(4), of "unat x6"] a8 by simp
  then show ?thesis
    by (simp add: unat_nibble_0 sum)
qed

lemma count_empty_flags: "count_empty x = uint (sum_flags (zero_flags x))"
  by (simp add: count_empty_def zero_flags_def sum_flags_def Let_def)

lemma bit_zero_flags:
  "\<forall>i<16. \<forall>n<4. bit (zero_flags x) (4 * i + n) =
     (n = 0 \<and> \<not> bit x (4 * i) \<and> \<not> bit x (4 * i + 1) \<and> \<not> bit x (4 * i + 2) \<and> \<not> bit x (4 * i + 3))"
  unfolding all_less_num by (simp add: zero_flags_def Let_def bit_simps conj_ac all_less_num)

lemma nibble_zero_iff: "nibble x i = 0 \<longleftrightarrow> (\<forall>n<4. \<not> bit x (4 * i + n))"
proof -
  have m: "(0xf :: board_t) = mask 4"
    by (simp add: mask_eq_exp_minus_1)
  have b: "bit (drop_bit (4 * i) x AND mask 4) n \<longleftrightarrow> n < 4 \<and> bit x (4 * i + n)" for n
    by (auto simp: bit_simps dest: bit_imp_le_length)
  have "nibble x i = 0 \<longleftrightarrow> drop_bit (4 * i) x AND mask 4 = 0"
    by (simp add: nibble_def m unat_eq_0)
  also have "\<dots> \<longleftrightarrow> (\<forall>n<4. \<not> bit x (4 * i + n))"
  proof
    assume "drop_bit (4 * i) x AND mask 4 = 0"
    then have "\<not> bit (drop_bit (4 * i) x AND mask 4) n" for n
      by simp
    then show "\<forall>n<4. \<not> bit x (4 * i + n)"
      by (simp add: b)
  next
    assume "\<forall>n<4. \<not> bit x (4 * i + n)"
    then have "\<not> bit (drop_bit (4 * i) x AND mask 4) n" for n
      by (simp add: b)
    then show "drop_bit (4 * i) x AND mask 4 = 0"
      by (intro bit_eqI) simp
  qed
  finally show ?thesis .
qed

lemma nibble_zero_flags: "\<forall>i<16. nibble (zero_flags x) i = is_zero (nibble x i)"
proof (intro allI impI)
  fix i :: nat
  assume i: "i < 16"
  from i bit_zero_flags [of x] have bits: "\<forall>n<4. bit (zero_flags x) (4 * i + n) =
      (n = 0 \<and> \<not> bit x (4 * i) \<and> \<not> bit x (4 * i + 1) \<and> \<not> bit x (4 * i + 2) \<and> \<not> bit x (4 * i + 3))"
    by blast
  have z: "nibble x i = 0 \<longleftrightarrow>
      \<not> bit x (4 * i) \<and> \<not> bit x (4 * i + 1) \<and> \<not> bit x (4 * i + 2) \<and> \<not> bit x (4 * i + 3)"
    unfolding nibble_zero_iff all_less_num by (simp add: all_less_num)
  show "nibble (zero_flags x) i = is_zero (nibble x i)"
  proof (cases "nibble x i = 0")
    case True
    with bits z have "\<forall>n<4. bit (zero_flags x) (4 * i + n) = bit (1 :: board_t) (0 + n)"
      by (simp add: bit_simps)
    then have "nibble (zero_flags x) i = unat (drop_bit 0 (1 :: board_t) AND 0xf)"
      unfolding nibble_def by (rule nib_eqI)
    with True show ?thesis
      by (simp add: is_zero_def)
  next
    case False
    with bits z have "\<forall>n<4. bit (zero_flags x) (4 * i + n) = bit (0 :: board_t) (0 + n)"
      by auto
    then have "nibble (zero_flags x) i = unat (drop_bit 0 (0 :: board_t) AND 0xf)"
      unfolding nibble_def by (rule nib_eqI)
    with False show ?thesis
      by (simp add: is_zero_def)
  qed
qed

lemma nibbles_zero_flags: "nibbles (zero_flags x) = map is_zero (nibbles x)"
  using nibble_zero_flags [of x] unfolding all_less_num
  by (simp add: nibbles_eq all_less_num)

lemma count_empty_mod: "count_empty x = int (empty_cells x mod 16)"
proof -
  define ds where "ds = map is_zero (nibbles x)"
  have "unat (zero_flags x) = val16 ds"
    by (simp add: unat_val16 nibbles_zero_flags ds_def)
  moreover have "length ds = 16"
    by (simp add: ds_def nibbles_def)
  moreover have "\<forall>d \<in> set ds. d \<le> 1"
    by (auto simp: ds_def is_zero_def)
  ultimately have "unat (sum_flags (zero_flags x)) = sum_list ds mod 16"
    unfolding sum_flags_def Let_def by (rule sum_nibbles)
  moreover have "sum_list ds = empty_cells x"
    using zeros_sum [of "nibbles x"] by (simp add: ds_def empty_cells_def zeros_def)
  ultimately show ?thesis
    by (simp only: count_empty_flags uint_nat)
qed

section \<open>Counting the distinct ranks\<close>

declare popcount.simps [simp del]

lemma bits_nat_rec:
  "{k. bit n k} = (if odd n then {0} else {}) \<union> Suc ` {k. bit (n div 2) k}" for n :: nat
proof (rule set_eqI)
  fix k
  show "k \<in> {k. bit n k} \<longleftrightarrow> k \<in> (if odd n then {0} else {}) \<union> Suc ` {k. bit (n div 2) k}"
    by (cases k) (auto simp: bit_0 bit_Suc)
qed

lemma card_bits_nat: "finite {k. bit n k} \<and> card {k. bit n k} = popcount n" for n :: nat
proof (induction n rule: popcount.induct)
  case (1 n)
  show ?case
  proof (cases "n = 0")
    case True
    then show ?thesis by (simp add: popcount.simps)
  next
    case False
    with 1 have fin: "finite {k. bit (n div 2) k}"
      and card: "card {k. bit (n div 2) k} = popcount (n div 2)"
      by simp_all
    have "card (Suc ` {k. bit (n div 2) k}) = popcount (n div 2)"
      using card by (simp add: card_image)
    moreover have "0 \<notin> Suc ` {k. bit (n div 2) k}"
      by auto
    ultimately have "card {k. bit n k} = n mod 2 + popcount (n div 2)"
      using fin by (subst bits_nat_rec) (auto simp: odd_iff_mod_2_eq_one)
    moreover have "finite {k. bit n k}"
      using fin by (subst bits_nat_rec) simp
    ultimately show ?thesis
      using False by (simp add: popcount.simps [of n])
  qed
qed

lemma popcount_double: "popcount (2 * m) = popcount m"
  by (cases "m = 0") (simp_all add: popcount.simps [of "2 * m"] popcount.simps [of 0])

lemma popcount_clear_lowest: "0 < n \<Longrightarrow> popcount (n AND (n - 1)) + 1 = popcount n"
proof (induction n rule: popcount.induct)
  case (1 n)
  then have n: "n \<noteq> 0" by simp
  have rec: "n AND (n - 1) = of_bool (odd n \<and> odd (n - 1)) + 2 * ((n div 2) AND ((n - 1) div 2))"
    by (rule and_nat_rec)
  show ?case
  proof (cases "odd n")
    case True
    then have "(n - 1) div 2 = n div 2" and "even (n - 1)"
      by (auto elim: oddE)
    with rec have "n AND (n - 1) = 2 * (n div 2)"
      by simp
    then have "popcount (n AND (n - 1)) = popcount (n div 2)"
      by (simp only: popcount_double)
    with True n show ?thesis
      by (simp add: popcount.simps [of n] odd_iff_mod_2_eq_one)
  next
    case False
    with n have m: "0 < n div 2" and pred: "(n - 1) div 2 = n div 2 - 1"
      by (auto elim!: evenE)
    from False rec pred have "n AND (n - 1) = 2 * ((n div 2) AND (n div 2 - 1))"
      by simp
    then have "popcount (n AND (n - 1)) = popcount ((n div 2) AND (n div 2 - 1))"
      by (simp only: popcount_double)
    moreover from "1.IH" n m have "popcount ((n div 2) AND (n div 2 - 1)) + 1 = popcount (n div 2)"
      by simp
    ultimately show ?thesis
      using False n by (simp add: popcount.simps [of n])
  qed
qed

lemma card_bits_word: "card {k. bit w k} = popcount (unat w)" for w :: "16 word"
proof -
  have "{k. bit w k} = {k. bit (unat w) k}"
    by (auto simp: bit_simps dest: bit_imp_le_length)
  then show ?thesis
    by (simp add: card_bits_nat)
qed

lemma popcount_loop_card: "popcount_loop w c = c + int (card {k. bit w k})"
proof (induction w c rule: popcount_loop.induct)
  case (1 w c)
  show ?case
  proof (cases "w = 0")
    case True
    then show ?thesis by simp
  next
    case False
    then have pos: "0 < unat w"
      by (simp add: unat_gt_0)
    have "unat (w AND (w - 1)) = unat w AND (unat w - 1)"
      using False by (simp add: unsigned_and_eq unat_minus_one)
    with popcount_clear_lowest [OF pos]
    have "card {k. bit (w AND (w - 1)) k} + 1 = card {k. bit w k}"
      by (simp add: card_bits_word)
    with "1.IH" False show ?thesis
      by (subst popcount_loop.simps) simp
  qed
qed

lemma nibble_less: "nibble b i < 16"
  by (simp add: nibble_div_mod)

lemma nibble_drop_4: "nibble (drop_bit 4 b) i = nibble b (Suc i)"
  by (simp add: nibble_def add.commute)

lemma nibble_0: "nibble 0 i = 0"
  by (simp add: nibble_def)

lemma nibble_beyond: "16 \<le> i \<Longrightarrow> nibble b i = 0"
proof -
  assume "16 \<le> i"
  then have "64 \<le> 4 * i" by simp
  then have "drop_bit (4 * i) b = 0"
    by (intro bit_eqI) (auto simp: bit_simps dest: bit_imp_le_length)
  then show ?thesis
    by (simp add: nibble_def)
qed

lemma bit_rank_flag: "bit (push_bit n 1 :: 16 word) k \<longleftrightarrow> k = n \<and> k < 16"
  by (auto simp: bit_simps)

lemma bit_bitset_loop:
  "0 < k \<Longrightarrow> bit (bitset_loop board bs) k \<longleftrightarrow> bit bs k \<or> (\<exists>i. nibble board i = k)"
proof (induction board bs rule: bitset_loop.induct)
  case (1 board bs)
  show ?case
  proof (cases "board = 0")
    case True
    with "1.prems" show ?thesis
      by (simp add: nibble_0)
  next
    case False
    have n0: "unat (board AND 0xf) = nibble board 0"
      by (simp add: nibble_def)
    from False "1.IH" "1.prems"
    have "bit (bitset_loop board bs) k \<longleftrightarrow>
        bit (bs OR push_bit (nibble board 0) 1) k \<or> (\<exists>i. nibble (drop_bit 4 board) i = k)"
      by (subst bitset_loop.simps) (simp add: n0)
    also have "\<dots> \<longleftrightarrow> bit bs k \<or> nibble board 0 = k \<or> (\<exists>i. nibble board (Suc i) = k)"
    proof -
      have "bit (push_bit (nibble board 0) 1 :: 16 word) k \<longleftrightarrow> nibble board 0 = k"
        unfolding bit_rank_flag using nibble_less [of board 0] by auto
      then show ?thesis
        by (simp only: bit_or_iff nibble_drop_4) blast
    qed
    also have "(nibble board 0 = k \<or> (\<exists>i. nibble board (Suc i) = k)) \<longleftrightarrow> (\<exists>i. nibble board i = k)"
    proof
      assume "nibble board 0 = k \<or> (\<exists>i. nibble board (Suc i) = k)"
      then show "\<exists>i. nibble board i = k"
        by blast
    next
      assume "\<exists>i. nibble board i = k"
      then obtain i where i: "nibble board i = k" ..
      then show "nibble board 0 = k \<or> (\<exists>i. nibble board (Suc i) = k)"
        by (cases i) auto
    qed
    finally show ?thesis .
  qed
qed

lemma set_nibbles: "set (nibbles b) = {r. \<exists>i<16. nibble b i = r}"
  by (auto simp: nibbles_def simp del: upt_rec_numeral)

lemma distinct_ranks_card: "distinct_ranks b = card (set (nibbles b) - {0})"
proof -
  have "set (filter (\<lambda>r. r \<noteq> 0) (nibbles b)) = set (nibbles b) - {0}"
    by auto
  then show ?thesis
    by (simp add: distinct_ranks_def length_remdups_card_conv)
qed

lemma count_distinct_tiles_eq: "count_distinct_tiles board = int (distinct_ranks board)"
proof -
  define W where "W = bitset_loop board 0"
  have "Suc ` {n. bit (drop_bit 1 W) n} = set (nibbles board) - {0}"
  proof (rule set_eqI)
    fix r
    have "r \<in> Suc ` {n. bit (drop_bit 1 W) n} \<longleftrightarrow> 0 < r \<and> bit W r"
      by (cases r) (auto simp: bit_simps image_iff)
    also have "\<dots> \<longleftrightarrow> 0 < r \<and> (\<exists>i. nibble board i = r)"
    proof (cases "0 < r")
      case True
      then have "bit W r \<longleftrightarrow> bit (0 :: 16 word) r \<or> (\<exists>i. nibble board i = r)"
        unfolding W_def by (rule bit_bitset_loop)
      then show ?thesis
        by simp
    next
      case False
      then show ?thesis
        by simp
    qed
    also have "\<dots> \<longleftrightarrow> 0 < r \<and> (\<exists>i<16. nibble board i = r)"
    proof -
      have "i < 16" if "nibble board i = r" "0 < r" for i
        using that nibble_beyond [of i board] by (cases "i < 16") auto
      then show ?thesis
        by blast
    qed
    also have "\<dots> \<longleftrightarrow> r \<in> set (nibbles board) - {0}"
      by (auto simp: set_nibbles)
    finally show "r \<in> Suc ` {n. bit (drop_bit 1 W) n} \<longleftrightarrow> r \<in> set (nibbles board) - {0}" .
  qed
  then have "card (Suc ` {n. bit (drop_bit 1 W) n}) = distinct_ranks board"
    by (simp only: distinct_ranks_card)
  then have "card {n. bit (drop_bit 1 W) n} = distinct_ranks board"
    by (simp add: card_image)
  then show ?thesis
    by (simp only: count_distinct_tiles_def popcount_loop_card W_def)
qed

section \<open>The grid of cells\<close>

lemma cells_nibbles: "cells b = nibbles b"
  by (simp only: cells_def nibbles_digits16)

lemma board_of_cells_cells: "board_of_cells (cells b) = b"
proof -
  have "board_of_cells (cells b) = of_nat (val16 (nibbles b))"
    by (simp only: board_of_cells_def cells_nibbles)
  also have "val16 (nibbles b) = unat b"
    by (rule unat_val16 [symmetric])
  also have "(of_nat (unat b) :: board_t) = b"
    by simp
  finally show ?thesis .
qed

lemma cells_inject: "cells a = cells b \<Longrightarrow> a = b"
  by (metis board_of_cells_cells)

lemma unat_row_nibble: "unat (drop_bit (4 * i) r AND 0xf) = unat r div 16 ^ i mod 16" for r :: row_t
proof -
  have "(0xf :: row_t) = mask 4"
    by (simp add: mask_eq_exp_minus_1)
  then have "drop_bit (4 * i) r AND 0xf = take_bit 4 (drop_bit (4 * i) r)"
    by (simp add: take_bit_eq_mask)
  then have "unat (drop_bit (4 * i) r AND 0xf) = take_bit 4 (unat (drop_bit (4 * i) r))"
    by (simp only: unsigned_take_bit_eq)
  also have "unat (drop_bit (4 * i) r) = drop_bit (4 * i) (unat r)"
    by (rule unat_drop_bit_eq)
  also have "\<dots> = unat r div 2 ^ (4 * i)"
    by (rule drop_bit_eq_div)
  also have "(2 :: nat) ^ (4 * i) = 16 ^ i"
    by (simp add: power_mult)
  finally show ?thesis
    by (simp add: take_bit_eq_mod)
qed

lemma row_cells_tiles: "row_cells r = tiles_of_row r"
proof -
  have "tiles_of_row r = map (\<lambda>j. unat r div 16 ^ j mod 16) [0, 1, 2, 3]"
    using unat_row_nibble [of 0 r] unat_row_nibble [of 1 r] unat_row_nibble [of 2 r]
      unat_row_nibble [of 3 r]
    by (simp add: tiles_of_row_eq)
  moreover have "digits16 4 (unat r div 16 ^ 0) = map (\<lambda>j. unat r div 16 ^ j mod 16) [0..<0 + 4]"
    by (rule digits16_div_mod)
  moreover have "[0..<0 + 4] = [0, 1, 2, 3 :: nat]"
    by code_simp
  ultimately show ?thesis
    by (simp add: row_cells_def)
qed


lemma rows_of_cells_append:
  assumes "length a = 4" "length b = 4" "length c = 4" "length d = 4"
  shows "rows_of_cells (a @ b @ c @ d) = [a, b, c, d]"
  using assms by (simp add: rows_of_cells_def)

lemma rows_of_cells_board:
  "rows_of_cells (cells b) =
     [row_cells (row_at 0 b), row_cells (row_at (Suc 0) b), row_cells (row_at 2 b), row_cells (row_at 3 b)]"
  unfolding cells_nibbles nibbles_rows row_cells_tiles
  by (rule rows_of_cells_append) (rule length_tiles_of_row)+

lemma cells_join_rows:
  "cells (join_rows r0 r1 r2 r3) = row_cells r0 @ row_cells r1 @ row_cells r2 @ row_cells r3"
  by (simp only: cells_nibbles nibbles_rows row_at_join_rows row_cells_tiles)

lemma cells_mirror: "cells (mirror b) = mirror_cells (cells b)"
  by (simp add: mirror_rows cells_join_rows mirror_cells_def rows_of_cells_board row_cells_tiles
      tiles_of_reverse_row)

lemma mirror_board_eq: "mirror_board b = mirror b"
  by (simp only: mirror_board_def cells_mirror [symmetric] board_of_cells_cells)

lemma nth_nibbles: "k < 16 \<Longrightarrow> nibbles b ! k = nibble b k"
  by (simp add: nibbles_def del: upt_rec_numeral)

lemma cells_transpose: "cells (transpose_board b) = transpose_cells (cells b)"
proof -
  have "nibble (transpose_board b) i = nibbles b ! (4 * (i mod 4) + i div 4)" if "i < 16" for i
  proof -
    from that have "4 * (i mod 4) + i div 4 < 16"
      by arith
    then have "nibbles b ! (4 * (i mod 4) + i div 4) = nibble b (4 * (i mod 4) + i div 4)"
      by (rule nth_nibbles)
    with nibble_transpose [of b] that show ?thesis
      by simp
  qed
  then have "map (nibble (transpose_board b)) [0..<16] =
      map (\<lambda>i. nibbles b ! (4 * (i mod 4) + i div 4)) [0..<16]"
    by (intro map_cong refl) (simp del: upt_rec_numeral)
  then show ?thesis
    by (simp only: cells_nibbles transpose_cells_def nibbles_def)
qed

lemma transpose_grid_eq: "transpose_grid b = transpose_board b"
  by (simp only: transpose_grid_def cells_transpose [symmetric] board_of_cells_cells)

lemma cells_move_left:
  "cells (execute_move_2 ai_init b) = concat (map slide_left_ref (rows_of_cells (cells b)))"
  by (simp add: execute_move_2_rows cells_join_rows rows_of_cells_board row_cells_tiles
      tiles_of_move_left_row)

lemma merge_pairs_spec_eq:
  "count_list xs 15 \<le> 1 \<Longrightarrow> \<forall>t \<in> set xs. t \<le> 15 \<Longrightarrow> merge_pairs_spec xs = merge_pairs xs"
proof (induction xs rule: merge_pairs.induct)
  case (1 x y ts)
  show ?case
  proof (cases "x = y")
    case True
    with "1.prems" have "x \<noteq> 15" and "x \<le> 15" and "count_list ts 15 \<le> 1" and "\<forall>t \<in> set ts. t \<le> 15"
      by (auto split: if_splits)
    with True "1.IH"(1) show ?thesis
      by simp
  next
    case False
    from "1.prems" have "count_list (y # ts) 15 \<le> 1" and "\<forall>t \<in> set (y # ts). t \<le> 15"
      by (auto split: if_splits)
    with False "1.IH"(2) show ?thesis
      by simp
  qed
qed simp_all

lemma count_list_filter_nz: "count_list (filter (\<lambda>t. t \<noteq> 0) ts) 15 = count_list ts (15 :: nat)"
  by (induction ts) simp_all

lemma slide_left_spec_eq:
  assumes "count_list ts 15 \<le> 1" and "\<forall>t \<in> set ts. t \<le> 15"
  shows "slide_left_spec ts = slide_left_ref ts"
proof -
  from assms have "merge_pairs_spec (filter (\<lambda>t. t \<noteq> 0) ts) = merge_pairs (filter (\<lambda>t. t \<noteq> 0) ts)"
    by (intro merge_pairs_spec_eq) (simp_all only: count_list_filter_nz, simp)
  then show ?thesis
    by (simp only: slide_left_spec_def slide_left_ref_def)
qed

lemma digits16_numeral:
  "digits16 (numeral k) v = v mod 16 # digits16 (pred_numeral k) (v div 16)"
proof -
  have "numeral k = Suc (pred_numeral k)"
    by (rule numeral_eq_Suc)
  then show ?thesis
    by (simp only: digits16.simps)
qed

lemma row_cells_le: "\<forall>t \<in> set (row_cells r). t \<le> 15"
  using tiles_of_row_le [of _ r] by (simp only: row_cells_tiles) blast

lemma board_of_cells_eqI: "cells x = cs \<Longrightarrow> x = board_of_cells cs"
  using board_of_cells_cells [of x] by simp

lemmas eval_cells = slide_left_ref_def slide_left_spec_def rows_of_cells_def mirror_cells_def
  transpose_cells_def list16 board_of_cells_def digits16_numeral

section \<open>Two tiles of the maximum rank\<close>

text \<open>
  Claim C1, as stated, fails: the claim says that two rank-15 tiles brought together by
  a slide both stay in the row. The row with the cells 15, 15, empty, empty moves to
  15, empty, empty, empty: the second cell is cleared.
\<close>

theorem max_rank_pair_counterexample:
  "tiles_of_row 0x00FF = [15, 15, 0, 0] \<and>
   tiles_of_row (move_left_row 0x00FF) = [15, 0, 0, 0] \<and>
   count_list (tiles_of_row (move_left_row 0x00FF)) 15 = 1 \<and>
   row_left_table ai_init 0x00FF = 0x00F0 \<and>
   do_execute_move ai_init 2 0x00FF = 0x000F"
proof -
  have m: "move_left_row 0x00FF = 0x000F"
    by (simp add: eval_row)
  have "tiles_of_row 0x00FF = [15, 15, 0, 0]" "tiles_of_row 0x000F = [15, 0, 0, 0]"
    by (simp_all add: tiles_of_row_eq)
  moreover have "row_left_table ai_init 0x00FF = 0x00F0"
    by (simp add: ai_init_tables m)
  moreover have "move_left_row 0 = 0"
    by (simp add: eval_row)
  then have "do_execute_move ai_init 2 0x00FF = 0x000F"
    by (simp add: eval_move m)
  ultimately show ?thesis
    by (simp add: m)
qed

text \<open>
  Claim C1, amended. When a slide to the left brings together two tiles of rank 15, the
  rank is not raised above 15, and the cell of the second tile is cleared all the same:
  the pair leaves a single rank-15 tile. Here the non-empty cells of the row are
  \<open>xs\<close>, the pair, and \<open>ys\<close>, and the tile before the pair is not itself of rank 15.
\<close>

theorem max_rank_pair_leaves_one_tile:
  assumes "filter (\<lambda>t. t \<noteq> 0) (tiles_of_row r) = xs @ 15 # 15 # ys"
    and "xs = [] \<or> last xs \<noteq> 15"
  shows "tiles_of_row (move_left_row r) =
           (merge_pairs xs @ 15 # merge_pairs ys) @
           replicate (4 - length (merge_pairs xs @ 15 # merge_pairs ys)) 0"
proof -
  from assms(2) have "merge_pairs (xs @ 15 # 15 # ys) = merge_pairs xs @ merge_pairs (15 # 15 # ys)"
    by (intro merge_pairs_append) auto
  then have "merge_pairs (xs @ 15 # 15 # ys) = merge_pairs xs @ 15 # merge_pairs ys"
    by simp
  with assms(1) show ?thesis
    by (simp add: tiles_of_move_left_row slide_left_ref_def Let_def length_tiles_of_row)
qed

theorem max_rank_pair_leaves_one_tile_witness:
  "filter (\<lambda>t. t \<noteq> 0) (tiles_of_row 0x0FF3) = [3] @ 15 # 15 # [] \<and>
   last [3 :: nat] \<noteq> 15 \<and>
   tiles_of_row (move_left_row 0x0FF3) = [3, 15, 0, 0]"
proof -
  have f: "filter (\<lambda>t. t \<noteq> 0) (tiles_of_row 0x0FF3) = [3] @ 15 # 15 # []"
    by (simp add: tiles_of_row_eq)
  from max_rank_pair_leaves_one_tile [OF f] f show ?thesis
    by (simp add: numeral_2_eq_2)
qed

section \<open>The merge score of a row\<close>

text \<open>
  Claim C2, as stated, fails: the claim says that a run of exactly two equal tiles
  contributes 3 to the merge score. For the row with the cells 1, 1, empty, empty, whose
  only run is that pair, the loop of the table construction yields 2.
\<close>

theorem merge_score_pair_counterexample:
  "merge_runs (tiles_of_row 0x0011) = [[1, 1]] \<and>
   merge_score_len_plus_1 (tiles_of_row 0x0011) = 3 \<and>
   heur_merges (line_of_row 0x0011) = 2 \<and>
   heur_merges (line_of_row 0x0011) \<noteq> merge_score_len_plus_1 (tiles_of_row 0x0011)"
proof -
  have "tiles_of_row 0x0011 = [1, 1, 0, 0]"
    by (simp add: tiles_of_row_eq)
  then have "merge_runs (tiles_of_row 0x0011) = [[1, 1]]"
    by (simp add: merge_runs_def)
  moreover from this have "merge_score_len_plus_1 (tiles_of_row 0x0011) = 3"
    by (simp add: merge_score_len_plus_1_def)
  moreover have "heur_merges (line_of_row 0x0011) = 2"
    by (simp add: heur_merges_def heur_loop_def heur_step_def tiles_of_line_def
        line_of_row_def mk_line_def)
  ultimately show ?thesis
    by simp
qed

text \<open>
  Claim C2, amended. The merge score of a row is the sum, over the maximal runs of at
  least two equal ranks among its non-empty tiles (empty cells between tiles are skipped),
  of the length of the run; a row whose only such run is a pair has the merge score 2.
\<close>

theorem merge_score_is_run_length:
  "heur_merges (line_of_row row) = merge_score_len (tiles_of_row row) \<and>
   (merge_runs (tiles_of_row row) = [[t, t]] \<longrightarrow> heur_merges (line_of_row row) = 2)"
  by (simp add: heur_merges_eq tiles_of_row_def merge_score_len_def)

theorem merge_score_is_run_length_witness:
  "merge_runs (tiles_of_row 0x0011) = [[1, 1]] \<and>
   heur_merges (line_of_row 0x0011) = merge_score_len (tiles_of_row 0x0011) \<and>
   heur_merges (line_of_row 0x0011) = 2"
proof -
  have "tiles_of_row 0x0011 = [1, 1, 0, 0]"
    by (simp add: tiles_of_row_eq)
  then have "merge_runs (tiles_of_row 0x0011) = [[1, 1]]"
    by (simp add: merge_runs_def)
  with merge_score_is_run_length [of "0x0011" 1] show ?thesis
    by simp
qed

section \<open>Repeating a move\<close>

text \<open>
  Claim C4, as stated, fails: a second application of the same move can merge again.
  The row 1, 1, 1, 1 moves left to 2, 2, empty, empty, and that row moves left to
  3, empty, empty, empty.
\<close>

theorem move_idempotent_counterexample:
  "do_execute_move ai_init 2 0x1111 = 0x0022 \<and>
   do_execute_move ai_init 2 (do_execute_move ai_init 2 0x1111) = 0x0003 \<and>
   do_execute_move ai_init 2 (do_execute_move ai_init 2 0x1111) \<noteq> do_execute_move ai_init 2 0x1111"
proof -
  have r: "move_left_row 0x1111 = 0x0022" "move_left_row 0x0022 = 0x0003" "move_left_row 0 = 0"
    by (simp_all add: eval_row)
  have "do_execute_move ai_init 2 0x1111 = 0x0022"
    by (simp add: eval_move r)
  moreover have "do_execute_move ai_init 2 0x0022 = 0x0003"
    by (simp add: eval_move r)
  ultimately show ?thesis
    by simp
qed

text \<open>
  Claim C4, amended. For every board and every direction 0 to 3, after table
  initialisation: if the move merges nothing, that is, the moved board has as many empty
  cells as the board, then applying the same move again changes nothing more.
\<close>

theorem move_idempotent_without_merge:
  assumes "d \<in> {0, 1, 2, 3}"
    and "empty_cells (do_execute_move ai_init d b) = empty_cells b"
  shows "do_execute_move ai_init d (do_execute_move ai_init d b) = do_execute_move ai_init d b"
proof -
  have idem: "good_move f \<Longrightarrow> empty_cells (f b) = empty_cells b \<Longrightarrow> f (f b) = f b" for f
    unfolding good_move_def by blast
  from assms(1) consider "d = 0" | "d = 1" | "d = 2" | "d = 3"
    by auto
  then show ?thesis
  proof cases
    case 1
    with assms(2) idem [OF good_move_0] show ?thesis by (simp add: do_execute_move_def)
  next
    case 2
    with assms(2) idem [OF good_move_1] show ?thesis by (simp add: do_execute_move_def)
  next
    case 3
    with assms(2) idem [OF good_move_2] show ?thesis by (simp add: do_execute_move_def)
  next
    case 4
    with assms(2) idem [OF good_move_3] show ?thesis by (simp add: do_execute_move_def)
  qed
qed

theorem move_idempotent_without_merge_witness:
  "(2 :: int) \<in> {0, 1, 2, 3} \<and>
   do_execute_move ai_init 2 0x0120 = 0x0012 \<and>
   empty_cells (do_execute_move ai_init 2 0x0120) = empty_cells 0x0120 \<and>
   do_execute_move ai_init 2 (do_execute_move ai_init 2 0x0120) = do_execute_move ai_init 2 0x0120"
proof -
  have r: "move_left_row 0x0120 = 0x0012" "move_left_row 0 = 0"
    by (simp_all add: eval_row)
  have m: "do_execute_move ai_init 2 0x0120 = 0x0012"
    by (simp add: eval_move r)
  have e: "empty_cells 0x0012 = 14" "empty_cells 0x0120 = 14"
    by (simp_all add: empty_cells_def nibbles_eq nibble_def)
  from move_idempotent_without_merge [of 2 "0x0120"] m e show ?thesis
    by simp
qed

section \<open>The move tables against the brute-force slide\<close>

text \<open>
  Claim C5, as stated, fails: the entry of the left-move table for the row with the cells
  15, 15, empty, empty does not encode the brute-force slide of the specification. That
  slide suppresses the merge of two rank-15 tiles and leaves the row as it is; the table
  entry takes the row to 15, empty, empty, empty.
\<close>

theorem move_table_max_rank_counterexample:
  "row_cells 0x00FF = [15, 15, 0, 0] \<and>
   slide_left_spec (row_cells 0x00FF) = [15, 15, 0, 0] \<and>
   row_cells (0x00FF XOR row_left_table ai_init 0x00FF) = [15, 0, 0, 0] \<and>
   row_cells (0x00FF XOR row_left_table ai_init 0x00FF) \<noteq> slide_left_spec (row_cells 0x00FF)"
proof -
  have c: "row_cells 0x00FF = [15, 15, 0, 0]" "row_cells 0x000F = [15, 0, 0, 0]"
    by (simp_all add: row_cells_def digits16_numeral)
  have "move_left_row 0x00FF = 0x000F"
    by (simp add: eval_row)
  then have "(0x00FF :: row_t) XOR row_left_table ai_init 0x00FF = 0x000F"
    by (simp add: ai_init_tables)
  with c show ?thesis
    by (simp add: slide_left_spec_def)
qed

text \<open>
  Claim C5, amended. For every row, the entry of the left-move table, applied to the
  row, gives the slide with the saturating merge: two tiles of rank 15 leave one tile of
  rank 15. For a row with at most one tile of rank 15 this is the brute-force slide of the
  specification. The left move of a board is that slide on each of its four rows, and the
  three other moves are the left move under the symmetries of the grid: right is left on
  the mirrored board, mirrored back; up is left on the transposed board, transposed back;
  down is right on the transposed board, transposed back.
\<close>

theorem move_tables_saturating_slide:
  "row_cells (row XOR row_left_table ai_init row) = slide_left_ref (row_cells row) \<and>
   (count_list (row_cells row) 15 \<le> 1 \<longrightarrow>
      row_cells (row XOR row_left_table ai_init row) = slide_left_spec (row_cells row)) \<and>
   cells (do_execute_move ai_init 2 b) = concat (map slide_left_ref (rows_of_cells (cells b))) \<and>
   do_execute_move ai_init 3 b = mirror_board (do_execute_move ai_init 2 (mirror_board b)) \<and>
   do_execute_move ai_init 0 b = transpose_grid (do_execute_move ai_init 2 (transpose_grid b)) \<and>
   do_execute_move ai_init 1 b = transpose_grid (do_execute_move ai_init 3 (transpose_grid b))"
proof -
  have "row XOR row_left_table ai_init row = move_left_row row"
    by (simp only: ai_init_tables xor_cancel_left)
  then have "row_cells (row XOR row_left_table ai_init row) = slide_left_ref (row_cells row)"
    by (simp only: row_cells_tiles tiles_of_move_left_row)
  then show ?thesis
    by (simp add: do_execute_move_def move_3_mirror move_0_transpose move_1_transpose
        mirror_board_eq transpose_grid_eq cells_move_left slide_left_spec_eq row_cells_le)
qed

theorem move_tables_saturating_slide_witness:
  "count_list (row_cells 0x0211) 15 \<le> 1 \<and>
   row_cells 0x0211 = [1, 1, 2, 0] \<and>
   row_cells (0x0211 XOR row_left_table ai_init 0x0211) = [2, 2, 0, 0] \<and>
   cells 0x0001002003102211 = [1, 1, 2, 2, 0, 1, 3, 0, 0, 2, 0, 0, 1, 0, 0, 0] \<and>
   cells (do_execute_move ai_init 2 0x0001002003102211) =
     [2, 3, 0, 0, 1, 3, 0, 0, 2, 0, 0, 0, 1, 0, 0, 0] \<and>
   cells (do_execute_move ai_init 3 0x0001002003102211) =
     [0, 0, 2, 3, 0, 0, 1, 3, 0, 0, 0, 2, 0, 0, 0, 1] \<and>
   cells (do_execute_move ai_init 0 0x0001002003102211) =
     [2, 2, 2, 2, 0, 2, 3, 0, 0, 0, 0, 0, 0, 0, 0, 0] \<and>
   cells (do_execute_move ai_init 1 0x0001002003102211) =
     [0, 0, 0, 0, 0, 0, 0, 0, 0, 2, 2, 0, 2, 2, 3, 2]"
proof -
  have c: "cells 0x0001002003102211 = [1, 1, 2, 2, 0, 1, 3, 0, 0, 2, 0, 0, 1, 0, 0, 0]"
    "cells 0x1000020001301122 = [2, 2, 1, 1, 0, 3, 1, 0, 0, 0, 2, 0, 0, 0, 0, 1]"
    "cells 0x0002003202111001 = [1, 0, 0, 1, 1, 1, 2, 0, 2, 3, 0, 0, 2, 0, 0, 0]"
    "cells 0x2000230011201001 = [1, 0, 0, 1, 0, 2, 1, 1, 0, 0, 3, 2, 0, 0, 0, 2]"
    "cells 0x0001000200130023 = [3, 2, 0, 0, 3, 1, 0, 0, 2, 0, 0, 0, 1, 0, 0, 0]"
    "cells 0x0002003200220002 = [2, 0, 0, 0, 2, 2, 0, 0, 2, 3, 0, 0, 2, 0, 0, 0]"
    "cells 0x0002002300220002 = [2, 0, 0, 0, 2, 2, 0, 0, 3, 2, 0, 0, 2, 0, 0, 0]"
    "cells 0x2000320022002000 = [0, 0, 0, 2, 0, 0, 2, 2, 0, 0, 2, 3, 0, 0, 0, 2]"
    by (simp_all add: cells_def digits16_numeral)
  have m: "mirror_board 0x0001002003102211 = 0x1000020001301122"
    by (simp add: mirror_board_def c eval_cells)
  have t: "transpose_grid 0x0001002003102211 = 0x0002003202111001"
    by (simp add: transpose_grid_def c eval_cells)
  have tm: "mirror_board 0x0002003202111001 = 0x2000230011201001"
    by (simp add: mirror_board_def c eval_cells)
  have r: "count_list (row_cells 0x0211) 15 \<le> 1" "row_cells 0x0211 = [1, 1, 2, 0]"
    by (simp_all add: row_cells_def digits16_numeral)
  from move_tables_saturating_slide [of "0x0211" "0x0001002003102211"] r
  have row: "row_cells (0x0211 XOR row_left_table ai_init 0x0211) = [2, 2, 0, 0]"
    by (simp add: eval_cells)
  from move_tables_saturating_slide [of 0 "0x0001002003102211"]
  have l: "cells (do_execute_move ai_init 2 0x0001002003102211) =
      [2, 3, 0, 0, 1, 3, 0, 0, 2, 0, 0, 0, 1, 0, 0, 0]"
    by (simp add: c eval_cells)
  from move_tables_saturating_slide [of 0 "0x1000020001301122"]
  have "cells (do_execute_move ai_init 2 0x1000020001301122) =
      [3, 2, 0, 0, 3, 1, 0, 0, 2, 0, 0, 0, 1, 0, 0, 0]"
    by (simp add: c eval_cells)
  from this [THEN board_of_cells_eqI]
  have lm: "do_execute_move ai_init 2 0x1000020001301122 = 0x0001000200130023"
    by (simp add: eval_cells)
  from move_tables_saturating_slide [of 0 "0x0002003202111001"]
  have "cells (do_execute_move ai_init 2 0x0002003202111001) =
      [2, 0, 0, 0, 2, 2, 0, 0, 2, 3, 0, 0, 2, 0, 0, 0]"
    by (simp add: c eval_cells)
  from this [THEN board_of_cells_eqI]
  have lt: "do_execute_move ai_init 2 0x0002003202111001 = 0x0002003200220002"
    by (simp add: eval_cells)
  from move_tables_saturating_slide [of 0 "0x2000230011201001"]
  have "cells (do_execute_move ai_init 2 0x2000230011201001) =
      [2, 0, 0, 0, 2, 2, 0, 0, 3, 2, 0, 0, 2, 0, 0, 0]"
    by (simp add: c eval_cells)
  from this [THEN board_of_cells_eqI]
  have ltm: "do_execute_move ai_init 2 0x2000230011201001 = 0x0002002300220002"
    by (simp add: eval_cells)
  from move_tables_saturating_slide [of 0 "0x0001002003102211"]
  have right: "do_execute_move ai_init 3 0x0001002003102211 = mirror_board 0x0001000200130023"
    by (simp only: m lm)
  from move_tables_saturating_slide [of 0 "0x0001002003102211"]
  have up: "do_execute_move ai_init 0 0x0001002003102211 = transpose_grid 0x0002003200220002"
    by (simp only: t lt)
  from move_tables_saturating_slide [of 0 "0x0002003202111001"]
  have "do_execute_move ai_init 3 0x0002003202111001 = mirror_board 0x0002002300220002"
    by (simp only: tm ltm)
  with move_tables_saturating_slide [of 0 "0x0001002003102211"]
  have down: "do_execute_move ai_init 1 0x0001002003102211 =
      transpose_grid (mirror_board 0x0002002300220002)"
    by (simp only: t)
  have mb: "mirror_board 0x0002002300220002 = 0x2000320022002000"
    by (simp add: mirror_board_def c eval_cells)
  have "cells (mirror_board 0x0001000200130023) = [0, 0, 2, 3, 0, 0, 1, 3, 0, 0, 0, 2, 0, 0, 0, 1]"
    by (simp add: mirror_board_def c eval_cells cells_def)
  moreover have "cells (transpose_grid 0x0002003200220002) =
      [2, 2, 2, 2, 0, 2, 3, 0, 0, 0, 0, 0, 0, 0, 0, 0]"
    by (simp add: transpose_grid_def c eval_cells cells_def)
  moreover have "cells (transpose_grid (mirror_board 0x0002002300220002)) =
      [0, 0, 0, 0, 0, 0, 0, 0, 0, 2, 2, 0, 2, 2, 3, 2]"
    by (simp add: mb transpose_grid_def c eval_cells cells_def)
  ultimately show ?thesis
    using r row c(1) l by (simp only: right up down simp_thms)
qed

section \<open>Counting the empty cells\<close>

text \<open>
  Claim C6. \<open>ai_count_empty\<close> should return the number of empty cells of every board.
  The nibble-parallel sum keeps four bits of the count: on every board the result is the
  number of empty cells modulo 16, which is that number except on the all-empty board
  \<open>0\<close>, where sixteen cells are empty and the function returns 0.
\<close>

theorem count_empty_all_empty_board:
  "ai_count_empty 0 = 0 \<and> empty_cells 0 = 16 \<and>
   ai_count_empty 0x0000000000000001 = 15 \<and> empty_cells 0x0000000000000001 = 15"
proof -
  have "empty_cells 0 = 16" "empty_cells 0x0000000000000001 = 15"
    by (simp_all add: empty_cells_def nibbles_eq nibble_def)
  then show ?thesis
    by (simp add: ai_count_empty_def count_empty_mod)
qed

section \<open>Moves that change nothing\<close>

text \<open>
  Claim C7. If a direction leaves the board unchanged, the top-level driver gives it the
  score 0, whatever the chance-node evaluator is; and on a board that all four directions
  leave unchanged, \<open>ai_find_best_move\<close> returns the no-move value \<open>-1\<close>.
\<close>

theorem unchanged_move_scores_zero:
  "(d \<in> {0, 1, 2, 3} \<and> do_execute_move T d b = b \<longrightarrow>
      fst (internal_score_toplevel_move tc T st b d) = 0) \<and>
   ((\<forall>d \<in> {0, 1, 2, 3}. do_execute_move T d b = b) \<longrightarrow> ai_find_best_move tc T b = - 1)"
  by (simp add: internal_score_toplevel_move_def ai_find_best_move_def toplevel_step_def)

theorem unchanged_move_scores_zero_witness:
  "(2 :: int) \<in> {0, 1, 2, 3} \<and>
   do_execute_move ai_init 0 0x1212212112122121 = 0x1212212112122121 \<and>
   do_execute_move ai_init 1 0x1212212112122121 = 0x1212212112122121 \<and>
   do_execute_move ai_init 2 0x1212212112122121 = 0x1212212112122121 \<and>
   do_execute_move ai_init 3 0x1212212112122121 = 0x1212212112122121 \<and>
   fst (internal_score_toplevel_move (\<lambda>s b p. (1, s)) ai_init new_eval_state
          0x1212212112122121 2) = 0 \<and>
   ai_find_best_move (\<lambda>s b p. (1, s)) ai_init 0x1212212112122121 = - 1"
proof -
  have t: "transpose_board 0x1212212112122121 = 0x1212212112122121"
    by (simp add: transpose_board_def)
  have l: "move_left_row 0x2121 = 0x2121" "move_left_row 0x1212 = 0x1212"
    by (simp_all add: eval_row)
  have r: "move_right_row 0x2121 = 0x2121" "move_right_row 0x1212 = 0x1212"
    by (simp_all add: eval_row)
  have stuck: "\<forall>d \<in> {0, 1, 2, 3}. do_execute_move ai_init d 0x1212212112122121 = 0x1212212112122121"
    by (simp add: eval_move t l r)
  with unchanged_move_scores_zero [of 2 ai_init "0x1212212112122121" "\<lambda>s b p. (1, s)" new_eval_state]
  show ?thesis
    by simp
qed

section \<open>The depth limit of a search\<close>

text \<open>
  Claim C8. The depth limit that a top-level call sets is \<open>max(3, n - 2)\<close>, where
  \<open>n\<close> is the number of distinct non-zero ranks on the board; a board with two distinct
  ranks gets the limit 3, a board with seven distinct ranks the limit 5.
\<close>

theorem depth_limit_from_distinct_ranks:
  "depth_limit (toplevel_state b) = max 3 (int (distinct_ranks b) - 2) \<and>
   (distinct_ranks b = 2 \<longrightarrow> depth_limit (toplevel_state b) = 3) \<and>
   (distinct_ranks b = 7 \<longrightarrow> depth_limit (toplevel_state b) = 5)"
  by (simp add: toplevel_state_def new_eval_state_def count_distinct_tiles_eq)

theorem depth_limit_from_distinct_ranks_witness:
  "distinct_ranks 0x0000000000001221 = 2 \<and> depth_limit (toplevel_state 0x0000000000001221) = 3 \<and>
   distinct_ranks 0x0000000007654321 = 7 \<and> depth_limit (toplevel_state 0x0000000007654321) = 5"
proof -
  have "distinct_ranks 0x0000000000001221 = 2" "distinct_ranks 0x0000000007654321 = 7"
    by (simp_all add: distinct_ranks_def nibbles_eq nibble_def)
  with depth_limit_from_distinct_ranks [of "0x0000000000001221"]
    depth_limit_from_distinct_ranks [of "0x0000000007654321"]
  show ?thesis
    by simp
qed

section \<open>The divisor of the chance node\<close>

text \<open>
  Claim C9. A board that a move has changed has at least one empty cell, and
  \<open>count_empty\<close> of it, the divisor \<open>num_open\<close> of the chance node, is not zero: it is
  the number of its empty cells. A move never lowers the number of empty cells, so a move
  that changes a full board leaves an empty cell behind.
\<close>

theorem chance_node_divisor_nonzero:
  assumes "d \<in> {0, 1, 2, 3}" and "do_execute_move ai_init d b \<noteq> b"
  shows "count_empty (do_execute_move ai_init d b) \<noteq> 0 \<and>
         count_empty (do_execute_move ai_init d b) = int (empty_cells (do_execute_move ai_init d b)) \<and>
         0 < empty_cells (do_execute_move ai_init d b) \<and>
         empty_cells b \<le> empty_cells (do_execute_move ai_init d b)"
proof -
  have good: "good_move (do_execute_move ai_init d)"
  proof -
    from assms(1) consider "d = 0" | "d = 1" | "d = 2" | "d = 3"
      by auto
    then have "do_execute_move ai_init d = execute_move_0 ai_init \<or>
        do_execute_move ai_init d = execute_move_1 ai_init \<or>
        do_execute_move ai_init d = execute_move_2 ai_init \<or>
        do_execute_move ai_init d = execute_move_3 ai_init"
      by cases (auto simp: do_execute_move_def fun_eq_iff)
    with good_move_0 good_move_1 good_move_2 good_move_3 show ?thesis
      by auto
  qed
  define c where "c = do_execute_move ai_init d b"
  from good assms(2) have "empty_cells b \<le> empty_cells c" "0 < empty_cells c" "empty_cells c < 16"
    unfolding good_move_def c_def by blast+
  then show ?thesis
    unfolding c_def [symmetric] by (simp add: count_empty_mod)
qed

theorem chance_node_divisor_nonzero_witness:
  "(2 :: int) \<in> {0, 1, 2, 3} \<and>
   do_execute_move ai_init 2 0x1111 = 0x0022 \<and>
   do_execute_move ai_init 2 0x1111 \<noteq> 0x1111 \<and>
   count_empty (do_execute_move ai_init 2 0x1111) \<noteq> 0 \<and>
   count_empty 0x0022 = 14"
proof -
  have r: "move_left_row 0x1111 = 0x0022" "move_left_row 0 = 0"
    by (simp_all add: eval_row)
  have m: "do_execute_move ai_init 2 0x1111 = 0x0022"
    by (simp add: eval_move r)
  have c: "count_empty 0x0022 = 14"
    by (simp add: count_empty_def)
  from chance_node_divisor_nonzero [of 2 "0x1111"] m c show ?thesis
    by simp
qed

section \<open>Invalid move codes\<close>

text \<open>
  Claim C10. For every board and every move code outside 0, 1, 2, 3, \<open>ai_execute_move\<close>
  returns the all-ones value \<open>0xFFFFFFFFFFFFFFFF\<close>; this is not the input board, unless
  the input is that very value.
\<close>

theorem invalid_move_all_ones:
  "move \<notin> {0, 1, 2, 3} \<Longrightarrow>
     ai_execute_move T move b = 0xFFFFFFFFFFFFFFFF \<and>
     (b \<noteq> 0xFFFFFFFFFFFFFFFF \<longrightarrow> ai_execute_move T move b \<noteq> b)"
proof -
  assume "move \<notin> {0, 1, 2, 3}"
  then have "ai_execute_move T move b = NOT 0"
    by (simp add: ai_execute_move_def do_execute_move_def)
  moreover have "NOT 0 = (0xFFFFFFFFFFFFFFFF :: board_t)"
    by simp
  ultimately show ?thesis
    by metis
qed

theorem invalid_move_all_ones_witness:
  "(4 :: int) \<notin> {0, 1, 2, 3} \<and> (0x1234 :: board_t) \<noteq> 0xFFFFFFFFFFFFFFFF \<and>
   ai_execute_move ai_init 4 0x1234 = 0xFFFFFFFFFFFFFFFF \<and>
   ai_execute_move ai_init 4 0x1234 \<noteq> 0x1234"
  using invalid_move_all_ones [of 4 ai_init "0x1234"] by simp

end
